theory Spec2Isabelle
  imports Main "HOL-Library.Word"
begin

unbundle bit_operations_syntax

section \<open>The fixchain Fixer: data\<close>

text \<open>
  The development embeds \<^verbatim>\<open>fixchain/fixer.go\<close>. A certificate (\<^verbatim>\<open>*x509.Certificate\<close>)
  is a value of the type variable \<open>'c\<close>, a fix error (\<^verbatim>\<open>*FixError\<close>, never nil where it
  is sent) a value of \<open>'e\<close>. A \<^verbatim>\<open>*x509.CertPool\<close> is an address into a store of pools;
  the store is a list, the address an index, and a pool the list of its certificates
  in the order they were added.
\<close>

type_synonym addr = nat

datatype ExtKeyUsage = ExtKeyUsageAny | ExtKeyUsageOther nat

text \<open>The fields of \<^verbatim>\<open>x509.VerifyOptions\<close> that \<^verbatim>\<open>QueueChain\<close> sets (lines 41-46).\<close>

record VerifyOptions =
  Intermediates :: addr
  Roots :: addr
  DisableTimeChecks :: bool
  KeyUsages :: "ExtKeyUsage list"

datatype 'c DedupedChain = DedupedChain (certs: "'c list")

text \<open>
  The task \<^verbatim>\<open>toFix\<close> built at line 48. Its \<^verbatim>\<open>opts\<close> field points to the options
  value of this very call, held here by value; its \<^verbatim>\<open>fixer\<close> field points back to the
  one Fixer of the model and is left out.
\<close>

record 'c toFix =
  cert :: 'c
  chain :: "'c DedupedChain"
  opts :: VerifyOptions

text \<open>The six statistics counters of the \<^verbatim>\<open>Fixer\<close> struct (lines 20-25), Go \<^verbatim>\<open>uint\<close>
  (64 bits on the usual platforms).\<close>

datatype counter =
  Reconstructed | NotReconstructed | Fixed | NotFixed | Skipped | AlreadyDone

text \<open>
  Control points of one \<^verbatim>\<open>fixServer\<close> goroutine (lines 57-72):
  \<^item> \<open>WRecv\<close>: blocked at the \<^verbatim>\<open>range f.toFix\<close> of line 60;
  \<^item> \<open>WInc t\<close>: task \<open>t\<close> received, line 61 not yet executed;
  \<^item> \<open>WHandle t\<close>: inside \<^verbatim>\<open>fix.handleChain()\<close>, line 62;
  \<^item> \<open>WStore t c v\<close>: inside \<^verbatim>\<open>handleChain\<close>, having read the value \<open>v\<close> of counter
    \<open>c\<close> and not yet written \<open>v + 1\<close> back;
  \<^item> \<open>WSendErr e\<close>: about to execute line 64;
  \<^item> \<open>WSendChains cs\<close>: in the loop of lines 66-68 with the chains \<open>cs\<close> left to send;
  \<^item> \<open>WDec\<close>: about to execute line 70;
  \<^item> \<open>WDone\<close>: the loop has ended, the deferred \<^verbatim>\<open>f.wg.Done()\<close> of line 58 is due;
  \<^item> \<open>WExited\<close>: the goroutine has returned.
\<close>

datatype ('c, 'e) wpc =
    WRecv
  | WInc "'c toFix"
  | WHandle "'c toFix"
  | WStore "'c toFix" counter "64 word"
  | WSendErr 'e
  | WSendChains "'c list list"
  | WDec
  | WDone
  | WExited

text \<open>
  Control points of a caller inside one call of the public interface:
  \<^item> \<open>QSend t\<close>: in \<^verbatim>\<open>QueueChain\<close>, blocked at the send of line 48;
  \<^item> \<open>QReturned\<close>: \<^verbatim>\<open>QueueChain\<close> has returned;
  \<^item> \<open>WtClose\<close>: in \<^verbatim>\<open>Wait\<close>, about to execute line 53;
  \<^item> \<open>WtWait\<close>: in \<^verbatim>\<open>Wait\<close>, blocked in \<^verbatim>\<open>f.wg.Wait()\<close>, line 54;
  \<^item> \<open>WtReturned\<close>: \<^verbatim>\<open>Wait\<close> has returned.
\<close>

datatype 'c cpc = QSend "'c toFix" | QReturned | WtClose | WtWait | WtReturned

text \<open>Control points of the goroutine of \<^verbatim>\<open>logStats\<close> (lines 83-91): not started,
  blocked at \<^verbatim>\<open>range t.C\<close>, returned.\<close>

datatype rpc = RNotStarted | RRecv | RExited

text \<open>A run-time panic of the Go runtime; it ends the process.\<close>

datatype panic = SendOnClosedChannel | CloseOfClosedChannel | NegativeWaitGroupCounter

text \<open>What line 85 prints: \<^verbatim>\<open>f.active\<close> and the six counters.\<close>

record stats =
  st_active :: "32 word"
  st_reconstructed :: "64 word"
  st_notReconstructed :: "64 word"
  st_fixed :: "64 word"
  st_notFixed :: "64 word"
  st_skipped :: "64 word"
  st_alreadyDone :: "64 word"

text \<open>
  Observable events, each tagged with the index of the worker that performs it:
  a task received from the intake channel, \<^verbatim>\<open>handleChain\<close> returning
  \<^verbatim>\<open>(chains, ferr)\<close>, a value sent on \<^verbatim>\<open>f.errors\<close>, a value sent on \<^verbatim>\<open>f.chains\<close>,
  a counter increment completed.
\<close>

datatype ('c, 'e) event =
    EvDequeue nat "'c toFix"
  | EvReturn nat "'c list list" "'e option"
  | EvSendError nat 'e
  | EvSendChain nat "'c list"
  | EvIncrement nat counter

text \<open>
  The state of the program: the fields of the \<^verbatim>\<open>Fixer\<close> struct that \<^verbatim>\<open>fixer.go\<close>
  uses, the control point of every goroutine, the store of certificate pools, the
  ticker of \<^verbatim>\<open>logStats\<close> and what has been logged, and the history of events.
  The intake channel \<^verbatim>\<open>f.toFix\<close> is a Go channel: its capacity, the values in its
  buffer (oldest first) and whether it is closed. The egress channels
  \<^verbatim>\<open>f.chains\<close> and \<^verbatim>\<open>f.errors\<close> belong to the caller; the values sent on them
  are the \<open>EvSendChain\<close> and \<open>EvSendError\<close> events of \<open>trace\<close>, and a send on
  them completes whenever the scheduler lets it (whatever their buffers and readers
  are; the caller closes them, if at all, after \<^verbatim>\<open>Wait\<close>).
\<close>

record ('c, 'e) state =
  toFix_cap :: nat
  toFix_buf :: "'c toFix list"
  toFix_closed :: bool
  workers :: "('c, 'e) wpc list"
  calls :: "'c cpc list"
  wg :: int
  active :: "32 word"
  reconstructed :: "64 word"
  notReconstructed :: "64 word"
  fixed :: "64 word"
  notFixed :: "64 word"
  skipped :: "64 word"
  alreadyDone :: "64 word"
  pools :: "'c list list"
  reporter :: rpc
  ticker_running :: bool
  ticker_d :: nat
  tickC_pending :: bool
  tickC_closed :: bool
  ticks :: nat
  logged :: "stats list"
  trace :: "('c, 'e) event list"
  crashed :: "panic option"

section \<open>Certificate pools and QueueChain\<close>

text \<open>\<^verbatim>\<open>x509.NewCertPool()\<close>: a new, empty pool at an address not in use.\<close>

definition NewCertPool :: "'c list list \<Rightarrow> 'c list list \<times> addr" where
  "NewCertPool h = (h @ [[]], length h)"

text \<open>
  Modelled from the spec: \<^verbatim>\<open>CertPool.AddCert\<close> belongs to the x509 package, whose
  source is not part of this development. The spec calls the intermediates a set built from the candidate chain, to
  which a certificate is added "only if it is not already present": the pool at
  address \<open>p\<close> gets \<open>c\<close> appended unless it holds \<open>c\<close> already. Every other pool is
  left as it is.
\<close>

definition AddCert :: "'c list list \<Rightarrow> addr \<Rightarrow> 'c \<Rightarrow> 'c list list" where
  "AddCert h p c =
     (if p < length h \<and> c \<notin> set (h ! p) then h[p := h ! p @ [c]] else h)"

text \<open>
  Lines 36-48 of \<^verbatim>\<open>QueueChain\<close> up to the send: the pool store after the call and the
  task that line 48 sends.
\<close>

definition QueueChain_task ::
  "'c list list \<Rightarrow> 'c \<Rightarrow> 'c DedupedChain \<Rightarrow> addr \<Rightarrow> 'c list list \<times> 'c toFix" where
  "QueueChain_task h crt d roots =
     (let (h1, intermediates) = NewCertPool h;
          h2 = foldl (\<lambda>hp c. AddCert hp intermediates c) h1 (certs d);
          vopts = \<lparr> Intermediates = intermediates,
                    Roots = roots,
                    DisableTimeChecks = True,
                    KeyUsages = [ExtKeyUsageAny] \<rparr>
      in (h2, \<lparr> cert = crt, chain = d, opts = vopts \<rparr>))"

section \<open>The steps of the goroutines\<close>

text \<open>\<^verbatim>\<open>atomic.AddUint32(addr, delta)\<close>: one indivisible step, wrapping at 32 bits.\<close>

definition atomic_AddUint32 :: "32 word \<Rightarrow> 32 word \<Rightarrow> 32 word" where
  "atomic_AddUint32 v delta = v + delta"

fun get_counter :: "('c, 'e) state \<Rightarrow> counter \<Rightarrow> 64 word" where
  "get_counter s Reconstructed = reconstructed s"
| "get_counter s NotReconstructed = notReconstructed s"
| "get_counter s Fixed = fixed s"
| "get_counter s NotFixed = notFixed s"
| "get_counter s Skipped = skipped s"
| "get_counter s AlreadyDone = alreadyDone s"

fun set_counter :: "counter \<Rightarrow> 64 word \<Rightarrow> ('c, 'e) state \<Rightarrow> ('c, 'e) state" where
  "set_counter Reconstructed v s = s\<lparr>reconstructed := v\<rparr>"
| "set_counter NotReconstructed v s = s\<lparr>notReconstructed := v\<rparr>"
| "set_counter Fixed v s = s\<lparr>fixed := v\<rparr>"
| "set_counter NotFixed v s = s\<lparr>notFixed := v\<rparr>"
| "set_counter Skipped v s = s\<lparr>skipped := v\<rparr>"
| "set_counter AlreadyDone v s = s\<lparr>alreadyDone := v\<rparr>"

definition snapshot :: "('c, 'e) state \<Rightarrow> stats" where
  "snapshot s = \<lparr> st_active = active s,
                  st_reconstructed = reconstructed s,
                  st_notReconstructed = notReconstructed s,
                  st_fixed = fixed s,
                  st_notFixed = notFixed s,
                  st_skipped = skipped s,
                  st_alreadyDone = alreadyDone s \<rparr>"

text \<open>
  A scheduler picks the next step. Steps of the callers:
  \<^item> \<open>CallQueueChain crt d roots\<close>: a caller enters \<^verbatim>\<open>QueueChain\<close> and runs it up to
    the send of line 48;
  \<^item> \<open>CallWait\<close>: a caller enters \<^verbatim>\<open>Wait\<close>;
  \<^item> \<open>Enqueue q\<close>: the send of call \<open>q\<close> (line 48) puts its task into the buffer of
    the channel, which has room;
  \<^item> \<open>Handoff q w\<close>: the send of call \<open>q\<close> (line 48) meets the receive of worker \<open>w\<close>
    (line 60), which waits at the empty channel; the two complete together;
  \<^item> \<open>Caller q\<close>: call \<open>q\<close> takes the step it can take alone: \<^verbatim>\<open>close(f.toFix)\<close>, the
    return of \<^verbatim>\<open>f.wg.Wait()\<close>, or the panic of a send on the closed channel.
  Steps of worker \<open>w\<close>: \<open>Dequeue\<close> (line 60 takes the oldest value of the buffer),
  \<open>Inc\<close> (line 61), \<open>HandleLoad\<close> and \<open>HandleStore\<close> (one
  counter increment inside \<^verbatim>\<open>handleChain\<close>), \<open>HandleReturn w chains ferr\<close>
  (\<^verbatim>\<open>handleChain\<close> returns \<open>chains\<close> and \<open>ferr\<close>, \<open>None\<close> being nil, and line 63 tests
  \<open>ferr\<close>; what it returns is not decided here: every result is possible),
  \<open>SendErr\<close> (line 64),
  \<open>SendChain\<close> (line 67), \<open>Dec\<close> (line 70), \<open>LoopExit\<close> (the range loop of line 60
  ends), \<open>WgDone\<close> (line 58, deferred).
  Steps of the ticker and the reporter: \<open>Tick\<close> (the ticker fires), \<open>Report\<close>
  (lines 84-90).
\<close>

datatype ('c, 'e) action =
    CallQueueChain 'c "'c DedupedChain" addr
  | CallWait
  | Enqueue nat
  | Handoff nat nat
  | Caller nat
  | Dequeue nat
  | Inc nat
  | HandleLoad nat counter
  | HandleStore nat
  | HandleReturn nat "'c list list" "'e option"
  | SendErr nat
  | SendChain nat
  | Dec nat
  | LoopExit nat
  | WgDone nat
  | Tick
  | Report

text \<open>
  Modelled from the spec: the increments of the six counters are in \<^verbatim>\<open>handleChain\<close>
  and its callees, whose source is not part of this development. The spec says of
  the reference counters that they are updated without atomicity and tolerate
  drift, and line 19 of \<^verbatim>\<open>fixer.go\<close> says "Counters may not be entirely accurate due
  to non-atomicity": an increment \<^verbatim>\<open>f.x++\<close> is two steps. \<open>counter_load\<close> is the
  first, the read of the field by worker \<open>w\<close>, which keeps the value read.
\<close>

definition counter_load ::
  "('c, 'e) state \<Rightarrow> nat \<Rightarrow> 'c toFix \<Rightarrow> counter \<Rightarrow> ('c, 'e) state" where
  "counter_load s w t c = s\<lparr>workers := (workers s)[w := WStore t c (get_counter s c)]\<rparr>"

text \<open>
  Modelled from the spec: the second step of an increment \<^verbatim>\<open>f.x++\<close> in \<^verbatim>\<open>handleChain\<close>
  (see \<open>counter_load\<close>): worker \<open>w\<close> writes the value \<open>v\<close> it has read, plus one,
  wrapping at the width of \<^verbatim>\<open>uint\<close>.
\<close>

definition counter_store ::
  "('c, 'e) state \<Rightarrow> nat \<Rightarrow> 'c toFix \<Rightarrow> counter \<Rightarrow> 64 word \<Rightarrow> ('c, 'e) state" where
  "counter_store s w t c v =
     (set_counter c (v + 1) s)
       \<lparr>workers := (workers s)[w := WHandle t], trace := trace s @ [EvIncrement w c]\<rparr>"

fun exec :: "('c, 'e) state \<Rightarrow> ('c, 'e) action \<Rightarrow> ('c, 'e) state option" where
  "exec s (CallQueueChain crt d roots) =
     (let (h, t) = QueueChain_task (pools s) crt d roots
      in Some (s\<lparr>pools := h, calls := calls s @ [QSend t]\<rparr>))"
| "exec s CallWait = Some (s\<lparr>calls := calls s @ [WtClose]\<rparr>)"
| "exec s (Enqueue q) =
     (if q < length (calls s) \<and> \<not> toFix_closed s \<and> length (toFix_buf s) < toFix_cap s
      then (case calls s ! q of
              QSend t \<Rightarrow>
                Some (s\<lparr>toFix_buf := toFix_buf s @ [t], calls := (calls s)[q := QReturned]\<rparr>)
            | _ \<Rightarrow> None)
      else None)"
| "exec s (Handoff q w) =
     (if q < length (calls s) \<and> w < length (workers s) \<and> \<not> toFix_closed s \<and>
         toFix_buf s = []
      then (case (calls s ! q, workers s ! w) of
              (QSend t, WRecv) \<Rightarrow>
                Some (s\<lparr>calls := (calls s)[q := QReturned],
                        workers := (workers s)[w := WInc t],
                        trace := trace s @ [EvDequeue w t]\<rparr>)
            | _ \<Rightarrow> None)
      else None)"
| "exec s (Caller q) =
     (if q < length (calls s)
      then (case calls s ! q of
              QSend t \<Rightarrow>
                if toFix_closed s then Some (s\<lparr>crashed := Some SendOnClosedChannel\<rparr>)
                else None
            | WtClose \<Rightarrow>
                if toFix_closed s then Some (s\<lparr>crashed := Some CloseOfClosedChannel\<rparr>)
                else Some (s\<lparr>toFix_closed := True, calls := (calls s)[q := WtWait]\<rparr>)
            | WtWait \<Rightarrow>
                if wg s = 0 then Some (s\<lparr>calls := (calls s)[q := WtReturned]\<rparr>)
                else None
            | _ \<Rightarrow> None)
      else None)"
| "exec s (Dequeue w) =
     (if w < length (workers s) \<and> workers s ! w = WRecv
      then (case toFix_buf s of
              t # ts \<Rightarrow>
                Some (s\<lparr>toFix_buf := ts, workers := (workers s)[w := WInc t],
                        trace := trace s @ [EvDequeue w t]\<rparr>)
            | [] \<Rightarrow> None)
      else None)"
| "exec s (Inc w) =
     (if w < length (workers s)
      then (case workers s ! w of
              WInc t \<Rightarrow>
                Some (s\<lparr>active := atomic_AddUint32 (active s) 1,
                        workers := (workers s)[w := WHandle t]\<rparr>)
            | _ \<Rightarrow> None)
      else None)"
| "exec s (HandleLoad w c) =
     (if w < length (workers s)
      then (case workers s ! w of
              WHandle t \<Rightarrow> Some (counter_load s w t c)
            | _ \<Rightarrow> None)
      else None)"
| "exec s (HandleStore w) =
     (if w < length (workers s)
      then (case workers s ! w of
              WStore t c v \<Rightarrow> Some (counter_store s w t c v)
            | _ \<Rightarrow> None)
      else None)"
| "exec s (HandleReturn w chs ferr) =
     (if w < length (workers s)
      then (case workers s ! w of
              WHandle t \<Rightarrow>
                Some (s\<lparr>workers := (workers s)
                          [w := (case ferr of Some e \<Rightarrow> WSendErr e
                                 | None \<Rightarrow> WSendChains chs)],
                        trace := trace s @ [EvReturn w chs ferr]\<rparr>)
            | _ \<Rightarrow> None)
      else None)"
| "exec s (SendErr w) =
     (if w < length (workers s)
      then (case workers s ! w of
              WSendErr e \<Rightarrow>
                Some (s\<lparr>workers := (workers s)[w := WDec],
                        trace := trace s @ [EvSendError w e]\<rparr>)
            | _ \<Rightarrow> None)
      else None)"
| "exec s (SendChain w) =
     (if w < length (workers s)
      then (case workers s ! w of
              WSendChains (c # cs) \<Rightarrow>
                Some (s\<lparr>workers := (workers s)[w := WSendChains cs],
                        trace := trace s @ [EvSendChain w c]\<rparr>)
            | _ \<Rightarrow> None)
      else None)"
| "exec s (Dec w) =
     (if w < length (workers s) \<and> (workers s ! w = WDec \<or> workers s ! w = WSendChains [])
      then Some (s\<lparr>active := atomic_AddUint32 (active s) (NOT 0),
                   workers := (workers s)[w := WRecv]\<rparr>)
      else None)"
| "exec s (LoopExit w) =
     (if w < length (workers s) \<and> workers s ! w = WRecv \<and> toFix_closed s \<and>
         toFix_buf s = []
      then Some (s\<lparr>workers := (workers s)[w := WDone]\<rparr>)
      else None)"
| "exec s (WgDone w) =
     (if w < length (workers s) \<and> workers s ! w = WDone
      then (if wg s - 1 < 0 then Some (s\<lparr>crashed := Some NegativeWaitGroupCounter\<rparr>)
            else Some (s\<lparr>wg := wg s - 1, workers := (workers s)[w := WExited]\<rparr>))
      else None)"
| "exec s Tick =
     (if ticker_running s
      then Some (s\<lparr>tickC_pending := True, ticks := ticks s + 1\<rparr>)
      else None)"
| "exec s Report =
     (if reporter s = RRecv
      then (if tickC_pending s
            then Some (s\<lparr>tickC_pending := False, logged := logged s @ [snapshot s]\<rparr>)
            else if tickC_closed s then Some (s\<lparr>reporter := RExited\<rparr>)
            else None)
      else None)"

text \<open>After a panic the process is gone: no goroutine takes a step.\<close>

definition step :: "('c, 'e) state \<Rightarrow> ('c, 'e) action \<Rightarrow> ('c, 'e) state option" where
  "step s a = (if crashed s = None then exec s a else None)"

fun run :: "('c, 'e) state \<Rightarrow> ('c, 'e) action list \<Rightarrow> ('c, 'e) state option" where
  "run s [] = Some s"
| "run s (a # as) = (case step s a of None \<Rightarrow> None | Some s' \<Rightarrow> run s' as)"

section \<open>NewFixer\<close>

definition wg_Add :: "int \<Rightarrow> ('c, 'e) state \<Rightarrow> ('c, 'e) state" where
  "wg_Add n s = s\<lparr>wg := wg s + n\<rparr>"

text \<open>\<^verbatim>\<open>go f.fixServer()\<close>: one more worker, which runs to the receive of line 60.\<close>

definition go_fixServer :: "('c, 'e) state \<Rightarrow> ('c, 'e) state" where
  "go_fixServer s = s\<lparr>workers := workers s @ [WRecv]\<rparr>"

function newFixServerPool_loop :: "nat \<Rightarrow> ('c, 'e) state \<Rightarrow> ('c, 'e) state" where
  "newFixServerPool_loop i s =
     (if i < 100 then newFixServerPool_loop (i + 1) (go_fixServer (wg_Add 1 s)) else s)"
  by pat_completeness auto
termination
  by (relation "measure (\<lambda>(i, s). 100 - i)") auto

declare newFixServerPool_loop.simps [simp del]

definition newFixServerPool :: "('c, 'e) state \<Rightarrow> ('c, 'e) state" where
  "newFixServerPool s = newFixServerPool_loop 0 s"

text \<open>\<^verbatim>\<open>time.Second\<close>, in nanoseconds.\<close>

definition time_Second :: nat where
  "time_Second = 1000000000"

text \<open>\<^verbatim>\<open>logStats\<close>: a ticker of period \<^verbatim>\<open>time.Second\<close> and the goroutine that reads it.\<close>

definition logStats :: "('c, 'e) state \<Rightarrow> ('c, 'e) state" where
  "logStats s = s\<lparr>ticker_running := True, ticker_d := time_Second, reporter := RRecv\<rparr>"

text \<open>
  \<^verbatim>\<open>NewFixer\<close>, from the pools \<open>h0\<close> that exist when it is called (those of the
  callers, the root pools among them). Line 99 makes the intake channel with
  \<^verbatim>\<open>make(chan *toFix)\<close>, that is with capacity 0.
\<close>

definition NewFixer :: "'c list list \<Rightarrow> ('c, 'e) state" where
  "NewFixer h0 =
     logStats (newFixServerPool
       \<lparr> toFix_cap = 0, toFix_buf = [], toFix_closed = False, workers = [], calls = [], wg = 0, active = 0,
         reconstructed = 0, notReconstructed = 0, fixed = 0, notFixed = 0,
         skipped = 0, alreadyDone = 0, pools = h0, reporter = RNotStarted,
         ticker_running = False, ticker_d = 0, tickC_pending = False,
         tickC_closed = False, ticks = 0, logged = [], trace = [],
         crashed = None \<rparr>)"

section \<open>Histories, invariants and schedules\<close>

text \<open>A value on its way out: on \<^verbatim>\<open>f.chains\<close> or on \<^verbatim>\<open>f.errors\<close>.\<close>

datatype ('c, 'e) egress = ToChains "'c list" | ToErrors 'e

text \<open>What lines 63-69 send for a result \<^verbatim>\<open>(chains, ferr)\<close> of \<^verbatim>\<open>handleChain\<close>.\<close>

fun route :: "'c list list \<times> 'e option \<Rightarrow> ('c, 'e) egress list" where
  "route (chs, Some e) = [ToErrors e]"
| "route (chs, None) = map ToChains chs"

fun sent_ev :: "nat \<Rightarrow> ('c, 'e) event \<Rightarrow> ('c, 'e) egress list" where
  "sent_ev w (EvSendError v e) = (if v = w then [ToErrors e] else [])"
| "sent_ev w (EvSendChain v c) = (if v = w then [ToChains c] else [])"
| "sent_ev w ev = []"

fun ret_ev :: "nat \<Rightarrow> ('c, 'e) event \<Rightarrow> ('c list list \<times> 'e option) list" where
  "ret_ev w (EvReturn v chs ferr) = (if v = w then [(chs, ferr)] else [])"
| "ret_ev w ev = []"

fun deq_ev :: "nat \<Rightarrow> ('c, 'e) event \<Rightarrow> 'c toFix list" where
  "deq_ev w (EvDequeue v t) = (if v = w then [t] else [])"
| "deq_ev w ev = []"

text \<open>The values worker \<open>w\<close> has sent on the egress channels, in order.\<close>

definition sends_of :: "nat \<Rightarrow> ('c, 'e) event list \<Rightarrow> ('c, 'e) egress list" where
  "sends_of w tr = concat (map (sent_ev w) tr)"

text \<open>The results \<^verbatim>\<open>handleChain\<close> has returned to worker \<open>w\<close>, in order.\<close>

definition results_of :: "nat \<Rightarrow> ('c, 'e) event list \<Rightarrow> ('c list list \<times> 'e option) list" where
  "results_of w tr = concat (map (ret_ev w) tr)"

text \<open>The tasks worker \<open>w\<close> has received, in order.\<close>

definition tasks_of :: "nat \<Rightarrow> ('c, 'e) event list \<Rightarrow> 'c toFix list" where
  "tasks_of w tr = concat (map (deq_ev w) tr)"

text \<open>Every value sent on an egress channel by any worker, in order.\<close>

fun egress_ev :: "('c, 'e) event \<Rightarrow> ('c, 'e) egress list" where
  "egress_ev (EvSendError v e) = [ToErrors e]"
| "egress_ev (EvSendChain v c) = [ToChains c]"
| "egress_ev ev = []"

definition egress_of :: "('c, 'e) event list \<Rightarrow> ('c, 'e) egress list" where
  "egress_of tr = concat (map egress_ev tr)"

text \<open>What a worker at a given control point has yet to send for its current task.\<close>

fun pending :: "('c, 'e) wpc \<Rightarrow> ('c, 'e) egress list" where
  "pending (WSendErr e) = [ToErrors e]"
| "pending (WSendChains cs) = map ToChains cs"
| "pending p = []"

text \<open>The task a worker holds while \<^verbatim>\<open>handleChain\<close> has not returned.\<close>

fun in_call :: "('c, 'e) wpc \<Rightarrow> 'c toFix list" where
  "in_call (WInc t) = [t]"
| "in_call (WHandle t) = [t]"
| "in_call (WStore t c v) = [t]"
| "in_call p = []"

text \<open>A worker between the two atomic adds of lines 61 and 70: it is handling a task.\<close>

fun handling :: "('c, 'e) wpc \<Rightarrow> bool" where
  "handling (WHandle t) = True"
| "handling (WStore t c v) = True"
| "handling (WSendErr e) = True"
| "handling (WSendChains cs) = True"
| "handling WDec = True"
| "handling p = False"



fun is_inc :: "counter \<Rightarrow> ('c, 'e) event \<Rightarrow> bool" where
  "is_inc c (EvIncrement w c') = (c' = c)"
| "is_inc c ev = False"

text \<open>The number of increments of counter \<open>c\<close> that have been completed.\<close>

definition incs :: "counter \<Rightarrow> ('c, 'e) event list \<Rightarrow> nat" where
  "incs c tr = length (filter (is_inc c) tr)"

fun loaded :: "counter \<Rightarrow> ('c, 'e) wpc \<Rightarrow> 64 word list" where
  "loaded c (WStore t c' v) = (if c' = c then [v] else [])"
| "loaded c p = []"

text \<open>The WaitGroup counts the workers that have not returned.\<close>

definition wg_inv :: "('c, 'e) state \<Rightarrow> bool" where
  "wg_inv s \<longleftrightarrow> wg s = int (length (filter (\<lambda>p. p \<noteq> WExited) (workers s)))"

text \<open>Only a closed intake channel lets a worker leave its loop or a \<^verbatim>\<open>Wait\<close> get past
  line 53.\<close>

definition closed_inv :: "('c, 'e) state \<Rightarrow> bool" where
  "closed_inv s \<longleftrightarrow>
     toFix_closed s \<or>
     (WDone \<notin> set (workers s) \<and> WExited \<notin> set (workers s) \<and>
      WtWait \<notin> set (calls s) \<and> WtReturned \<notin> set (calls s))"

definition returned_inv :: "('c, 'e) state \<Rightarrow> bool" where
  "returned_inv s \<longleftrightarrow> (WtReturned \<in> set (calls s) \<longrightarrow> wg s = 0)"

definition active_inv :: "('c, 'e) state \<Rightarrow> bool" where
  "active_inv s \<longleftrightarrow> active s = of_nat (length (filter handling (workers s)))"

definition routes_inv :: "('c, 'e) state \<Rightarrow> bool" where
  "routes_inv s \<longleftrightarrow>
     (\<forall>w < length (workers s).
        sends_of w (trace s) @ pending (workers s ! w) =
          concat (map route (results_of w (trace s))) \<and>
        length (results_of w (trace s)) + length (in_call (workers s ! w)) =
          length (tasks_of w (trace s)))"

definition counter_inv :: "('c, 'e) state \<Rightarrow> bool" where
  "counter_inv s \<longleftrightarrow>
     (\<forall>c. unat (get_counter s c) \<le> incs c (trace s) \<and>
          (\<forall>p \<in> set (workers s). \<forall>v \<in> set (loaded c p). unat v \<le> incs c (trace s)))"

definition log_inv :: "('c, 'e) state \<Rightarrow> bool" where
  "log_inv s \<longleftrightarrow> length (logged s) + (if tickC_pending s then 1 else 0) \<le> ticks s"

definition reporter_inv :: "('c, 'e) state \<Rightarrow> bool" where
  "reporter_inv s \<longleftrightarrow>
     reporter s = RRecv \<and> ticker_running s \<and> ticker_d s = time_Second \<and> \<not> tickC_closed s"

definition pool_inv :: "('c, 'e) state \<Rightarrow> bool" where
  "pool_inv s \<longleftrightarrow> length (workers s) = 100"

definition crash_inv :: "('c, 'e) state \<Rightarrow> bool" where
  "crash_inv s \<longleftrightarrow> crashed s \<noteq> Some NegativeWaitGroupCounter"

definition chan_inv :: "('c, 'e) state \<Rightarrow> bool" where
  "chan_inv s \<longleftrightarrow> toFix_cap s = 0 \<and> toFix_buf s = []"

text \<open>Every task in the program has its intermediates among the pools that exist.\<close>

definition tasks_inv :: "('c, 'e) state \<Rightarrow> bool" where
  "tasks_inv s \<longleftrightarrow>
     (\<forall>t. QSend t \<in> set (calls s) \<longrightarrow> Intermediates (opts t) < length (pools s)) \<and>
     (\<forall>t \<in> set (toFix_buf s). Intermediates (opts t) < length (pools s)) \<and>
     (\<forall>p \<in> set (workers s). \<forall>t \<in> set (in_call p). Intermediates (opts t) < length (pools s))"

definition invariant :: "('c, 'e) state \<Rightarrow> bool" where
  "invariant s \<longleftrightarrow>
     wg_inv s \<and> closed_inv s \<and> returned_inv s \<and> active_inv s \<and> routes_inv s \<and>
     counter_inv s \<and> log_inv s \<and> reporter_inv s \<and> pool_inv s \<and> crash_inv s \<and>
     chan_inv s \<and> tasks_inv s"

text \<open>
  Schedules used as examples. \<open>shutdown_sched\<close>: on a fresh Fixer a caller calls
  \<^verbatim>\<open>Wait\<close>, which closes the channel; the hundred workers leave their loops and
  return; \<^verbatim>\<open>Wait\<close> returns. \<open>busy_sched crt k m\<close>: \<open>m\<close> calls of \<^verbatim>\<open>QueueChain\<close>, each
  handing its task to the next idle worker, from worker \<open>k\<close> on.
\<close>

definition shutdown_sched :: "('c, 'e) action list" where
  "shutdown_sched =
     CallWait # Caller 0 # map LoopExit [0..<100] @ map WgDone [0..<100] @ [Caller 0]"

definition busy_sched :: "'c \<Rightarrow> nat \<Rightarrow> nat \<Rightarrow> ('c, 'e) action list" where
  "busy_sched crt k m =
     concat (map (\<lambda>i. [CallQueueChain crt (DedupedChain []) 0, Handoff i i]) [k..<k + m])"

section \<open>Example runs\<close>

text \<open>
  A Fixer made when one pool exists, the caller's root pool at address 0 holding the
  certificate 5. Certificates and fix errors are numbers here.
\<close>

definition demo_fixer :: "(nat, nat) state" where
  "demo_fixer = NewFixer [[5]]"

definition demo_task1 :: "nat toFix" where
  "demo_task1 = \<lparr> cert = 7, chain = DedupedChain [11, 12],
                   opts = \<lparr> Intermediates = 1, Roots = 0, DisableTimeChecks = True,
                            KeyUsages = [ExtKeyUsageAny] \<rparr> \<rparr>"

definition demo_task2 :: "nat toFix" where
  "demo_task2 = \<lparr> cert = 8, chain = DedupedChain [13],
                   opts = \<lparr> Intermediates = 2, Roots = 0, DisableTimeChecks = True,
                            KeyUsages = [ExtKeyUsageAny] \<rparr> \<rparr>"

text \<open>
  Two tasks are queued and taken by workers 3 and 4; \<^verbatim>\<open>handleChain\<close> returns the error
  42 (and a chain with it) to worker 3, which sends the error and is back at line 60,
  while worker 4 is still inside \<^verbatim>\<open>handleChain\<close>.
\<close>

definition demo_route_sched :: "(nat, nat) action list" where
  "demo_route_sched =
     [CallQueueChain 7 (DedupedChain [11, 12]) 0, CallQueueChain 8 (DedupedChain [13]) 0,
      Handoff 0 3, Handoff 1 4, Inc 3, Inc 4,
      HandleReturn 3 [[7, 11, 5]] (Some 42), SendErr 3, Dec 3]"

definition demo_route_state :: "(nat, nat) state" where
  "demo_route_state = the (run demo_fixer demo_route_sched)"

text \<open>The state after \<open>shutdown_sched\<close>: \<^verbatim>\<open>Wait\<close> has returned.\<close>

definition demo_shutdown_state :: "(nat, nat) state" where
  "demo_shutdown_state = the (run demo_fixer shutdown_sched)"

text \<open>A caller has entered \<^verbatim>\<open>Wait\<close> and not yet closed the channel.\<close>

definition demo_calling_state :: "(nat, nat) state" where
  "demo_calling_state = the (run demo_fixer [CallWait])"

text \<open>\<^verbatim>\<open>Wait\<close> has closed the channel and waits for the workers.\<close>

definition demo_closing_state :: "(nat, nat) state" where
  "demo_closing_state = the (run demo_fixer [CallWait, Caller 0])"

text \<open>As before, and worker 0 has returned; the other workers have not.\<close>

definition demo_waiting_state :: "(nat, nat) state" where
  "demo_waiting_state = the (run demo_fixer [CallWait, Caller 0, LoopExit 0, WgDone 0])"

text \<open>After \<^verbatim>\<open>Wait\<close> has returned: the ticker fires, a caller calls \<^verbatim>\<open>QueueChain\<close>, the
  reporter logs.\<close>

definition demo_after_sched :: "(nat, nat) action list" where
  "demo_after_sched = [Tick, CallQueueChain 7 (DedupedChain [11, 12]) 0, Report]"

definition demo_after_state :: "(nat, nat) state" where
  "demo_after_state = the (run demo_shutdown_state demo_after_sched)"

text \<open>\<^verbatim>\<open>QueueChain\<close> called after \<^verbatim>\<open>Wait\<close> has closed the channel.\<close>

definition demo_late_sched :: "(nat, nat) action list" where
  "demo_late_sched =
     [CallWait, Caller 0, CallQueueChain 7 (DedupedChain [11, 12]) 0, Caller 1]"

definition demo_late_state :: "(nat, nat) state" where
  "demo_late_state = the (run demo_fixer demo_late_sched)"

text \<open>Prefixes of \<open>demo_route_sched\<close>: workers 3 and 4 have received their tasks and
  are before line 61; worker 3 has sent its error and is before line 70.\<close>

definition demo_inc_state :: "(nat, nat) state" where
  "demo_inc_state = the (run demo_fixer (take 4 demo_route_sched))"

definition demo_dec_state :: "(nat, nat) state" where
  "demo_dec_state = the (run demo_fixer (take 8 demo_route_sched))"

text \<open>
  Workers 3 and 4 each increment the counter \<^verbatim>\<open>fixed\<close> once inside \<^verbatim>\<open>handleChain\<close>;
  both read it before either writes it back.
\<close>

definition demo_lost_sched :: "(nat, nat) action list" where
  "demo_lost_sched =
     [CallQueueChain 7 (DedupedChain [11, 12]) 0, CallQueueChain 8 (DedupedChain [13]) 0,
      Handoff 0 3, Handoff 1 4, Inc 3, Inc 4,
      HandleLoad 3 Fixed, HandleLoad 4 Fixed, HandleStore 3, HandleStore 4]"

definition demo_lost_state :: "(nat, nat) state" where
  "demo_lost_state = the (run demo_fixer demo_lost_sched)"

text \<open>One task is queued and waits at the send; then worker 3 has taken it.\<close>

definition demo_queued_state :: "(nat, nat) state" where
  "demo_queued_state = the (run demo_fixer [CallQueueChain 7 (DedupedChain [11, 12]) 0])"

definition demo_handed_state :: "(nat, nat) state" where
  "demo_handed_state =
     the (run demo_fixer [CallQueueChain 7 (DedupedChain [11, 12]) 0, Handoff 0 3])"

text \<open>A second call of \<^verbatim>\<open>QueueChain\<close>, and what follows it.\<close>

definition demo_second_call :: "(nat, nat) action" where
  "demo_second_call = CallQueueChain 8 (DedupedChain [13]) 0"

definition demo_later_sched :: "(nat, nat) action list" where
  "demo_later_sched = [Handoff 1 4, Inc 4, CallQueueChain 9 (DedupedChain [11, 11]) 0]"

text \<open>
  A hundred calls of \<^verbatim>\<open>QueueChain\<close> have handed their tasks to the hundred workers,
  none of which has finished; then one more call is made.
\<close>

definition demo_busy_sched :: "(nat, nat) action list" where
  "demo_busy_sched = busy_sched 7 0 100 @ [CallQueueChain 9 (DedupedChain []) 0]"

definition demo_busy_state :: "(nat, nat) state" where
  "demo_busy_state = the (run demo_fixer demo_busy_sched)"

definition demo_busy_task :: "nat toFix" where
  "demo_busy_task = \<lparr> cert = 9, chain = DedupedChain [],
                       opts = \<lparr> Intermediates = 101, Roots = 0, DisableTimeChecks = True,
                                KeyUsages = [ExtKeyUsageAny] \<rparr> \<rparr>"

section \<open>Steps, case by case\<close>

lemma step_cases [consumes 1, case_names queue wait enqueue handoff send_panic close_panic
    close wait_return dequeue inc load store ret send_err send_chain dec loop_exit done_panic
    wg_done tick report report_exit]:
  assumes "step s a = Some s'"
  obtains
    crt d roots where "a = CallQueueChain crt d roots" "crashed s = None"
      "s' = s\<lparr>pools := fst (QueueChain_task (pools s) crt d roots),
              calls := calls s @ [QSend (snd (QueueChain_task (pools s) crt d roots))]\<rparr>"
  | "a = CallWait" "crashed s = None" "s' = s\<lparr>calls := calls s @ [WtClose]\<rparr>"
  | q t where "a = Enqueue q" "crashed s = None" "q < length (calls s)"
      "\<not> toFix_closed s" "length (toFix_buf s) < toFix_cap s" "calls s ! q = QSend t"
      "s' = s\<lparr>toFix_buf := toFix_buf s @ [t], calls := (calls s)[q := QReturned]\<rparr>"
  | q w t where "a = Handoff q w" "crashed s = None" "q < length (calls s)"
      "w < length (workers s)" "\<not> toFix_closed s" "toFix_buf s = []" "calls s ! q = QSend t"
      "workers s ! w = WRecv"
      "s' = s\<lparr>calls := (calls s)[q := QReturned], workers := (workers s)[w := WInc t],
              trace := trace s @ [EvDequeue w t]\<rparr>"
  | q t where "a = Caller q" "crashed s = None" "q < length (calls s)" "calls s ! q = QSend t"
      "toFix_closed s" "s' = s\<lparr>crashed := Some SendOnClosedChannel\<rparr>"
  | q where "a = Caller q" "crashed s = None" "q < length (calls s)" "calls s ! q = WtClose"
      "toFix_closed s" "s' = s\<lparr>crashed := Some CloseOfClosedChannel\<rparr>"
  | q where "a = Caller q" "crashed s = None" "q < length (calls s)" "calls s ! q = WtClose"
      "\<not> toFix_closed s" "s' = s\<lparr>toFix_closed := True, calls := (calls s)[q := WtWait]\<rparr>"
  | q where "a = Caller q" "crashed s = None" "q < length (calls s)" "calls s ! q = WtWait"
      "wg s = 0" "s' = s\<lparr>calls := (calls s)[q := WtReturned]\<rparr>"
  | w t ts where "a = Dequeue w" "crashed s = None" "w < length (workers s)"
      "workers s ! w = WRecv" "toFix_buf s = t # ts"
      "s' = s\<lparr>toFix_buf := ts, workers := (workers s)[w := WInc t],
              trace := trace s @ [EvDequeue w t]\<rparr>"
  | w t where "a = Inc w" "crashed s = None" "w < length (workers s)" "workers s ! w = WInc t"
      "s' = s\<lparr>active := atomic_AddUint32 (active s) 1, workers := (workers s)[w := WHandle t]\<rparr>"
  | w t c where "a = HandleLoad w c" "crashed s = None" "w < length (workers s)"
      "workers s ! w = WHandle t" "s' = counter_load s w t c"
  | w t c v where "a = HandleStore w" "crashed s = None" "w < length (workers s)"
      "workers s ! w = WStore t c v" "s' = counter_store s w t c v"
  | w t chs ferr where "a = HandleReturn w chs ferr" "crashed s = None" "w < length (workers s)"
      "workers s ! w = WHandle t"
      "s' = s\<lparr>workers := (workers s)[w := (case ferr of Some e \<Rightarrow> WSendErr e
                                              | None \<Rightarrow> WSendChains chs)],
              trace := trace s @ [EvReturn w chs ferr]\<rparr>"
  | w e where "a = SendErr w" "crashed s = None" "w < length (workers s)"
      "workers s ! w = WSendErr e"
      "s' = s\<lparr>workers := (workers s)[w := WDec], trace := trace s @ [EvSendError w e]\<rparr>"
  | w c cs where "a = SendChain w" "crashed s = None" "w < length (workers s)"
      "workers s ! w = WSendChains (c # cs)"
      "s' = s\<lparr>workers := (workers s)[w := WSendChains cs],
              trace := trace s @ [EvSendChain w c]\<rparr>"
  | w where "a = Dec w" "crashed s = None" "w < length (workers s)"
      "workers s ! w = WDec \<or> workers s ! w = WSendChains []"
      "s' = s\<lparr>active := atomic_AddUint32 (active s) (NOT 0),
              workers := (workers s)[w := WRecv]\<rparr>"
  | w where "a = LoopExit w" "crashed s = None" "w < length (workers s)"
      "workers s ! w = WRecv" "toFix_closed s" "toFix_buf s = []"
      "s' = s\<lparr>workers := (workers s)[w := WDone]\<rparr>"
  | w where "a = WgDone w" "crashed s = None" "w < length (workers s)"
      "workers s ! w = WDone" "wg s - 1 < 0" "s' = s\<lparr>crashed := Some NegativeWaitGroupCounter\<rparr>"
  | w where "a = WgDone w" "crashed s = None" "w < length (workers s)"
      "workers s ! w = WDone" "\<not> wg s - 1 < 0"
      "s' = s\<lparr>wg := wg s - 1, workers := (workers s)[w := WExited]\<rparr>"
  | "a = Tick" "crashed s = None" "ticker_running s"
      "s' = s\<lparr>tickC_pending := True, ticks := ticks s + 1\<rparr>"
  | "a = Report" "crashed s = None" "reporter s = RRecv" "tickC_pending s"
      "s' = s\<lparr>tickC_pending := False, logged := logged s @ [snapshot s]\<rparr>"
  | "a = Report" "crashed s = None" "reporter s = RRecv" "\<not> tickC_pending s" "tickC_closed s"
      "s' = s\<lparr>reporter := RExited\<rparr>"
proof -
  from assms have c: "crashed s = None" and e: "exec s a = Some s'"
    by (auto simp: step_def split: if_splits)
  show thesis
  proof (cases a)
    case (CallQueueChain crt d roots)
    with e c that(1) show thesis by (auto simp: split_def Let_def)
  next
    case CallWait
    with e c that(2) show thesis by auto
  next
    case (Enqueue q)
    with e c that(3) show thesis by (auto split: if_splits cpc.splits)
  next
    case (Handoff q w)
    with e c that(4) show thesis
      by (auto split: if_splits cpc.splits wpc.splits)
  next
    case (Caller q)
    with e c that(5,6,7,8) show thesis
      by (auto split: if_splits cpc.splits)
  next
    case (Dequeue w)
    with e c that(9) show thesis by (auto split: if_splits list.splits)
  next
    case (Inc w)
    with e c that(10) show thesis by (auto split: if_splits wpc.splits)
  next
    case (HandleLoad w cn)
    with e c that(11) show thesis by (auto split: if_splits wpc.splits)
  next
    case (HandleStore w)
    with e c that(12) show thesis by (auto split: if_splits wpc.splits)
  next
    case (HandleReturn w chs ferr)
    with e c that(13) show thesis by (auto split: if_splits wpc.splits)
  next
    case (SendErr w)
    with e c that(14) show thesis by (auto split: if_splits wpc.splits)
  next
    case (SendChain w)
    with e c that(15) show thesis by (auto split: if_splits wpc.splits list.splits)
  next
    case (Dec w)
    with e c that(16) show thesis by (auto split: if_splits)
  next
    case (LoopExit w)
    with e c that(17) show thesis by (auto split: if_splits)
  next
    case (WgDone w)
    with e c that(18,19) show thesis by (auto split: if_splits)
  next
    case Tick
    with e c that(20) show thesis by (auto split: if_splits)
  next
    case Report
    with e c that(21,22) show thesis by (auto split: if_splits)
  qed
qed

lemma set_counter_fields [simp]:
  "toFix_cap (set_counter c v s) = toFix_cap s"
  "toFix_buf (set_counter c v s) = toFix_buf s"
  "toFix_closed (set_counter c v s) = toFix_closed s"
  "workers (set_counter c v s) = workers s"
  "calls (set_counter c v s) = calls s"
  "wg (set_counter c v s) = wg s"
  "active (set_counter c v s) = active s"
  "pools (set_counter c v s) = pools s"
  "reporter (set_counter c v s) = reporter s"
  "ticker_running (set_counter c v s) = ticker_running s"
  "ticker_d (set_counter c v s) = ticker_d s"
  "tickC_pending (set_counter c v s) = tickC_pending s"
  "tickC_closed (set_counter c v s) = tickC_closed s"
  "ticks (set_counter c v s) = ticks s"
  "logged (set_counter c v s) = logged s"
  "trace (set_counter c v s) = trace s"
  "crashed (set_counter c v s) = crashed s"
  by (cases c; simp)+

lemma get_set_counter [simp]:
  "get_counter (set_counter c v s) c' = (if c' = c then v else get_counter s c')"
  by (cases c; cases c'; simp)

lemma get_counter_upd [simp]:
  "get_counter (s\<lparr>workers := ws\<rparr>) c = get_counter s c"
  "get_counter (s\<lparr>calls := cl\<rparr>) c = get_counter s c"
  "get_counter (s\<lparr>trace := tr\<rparr>) c = get_counter s c"
  "get_counter (s\<lparr>active := ac\<rparr>) c = get_counter s c"
  "get_counter (s\<lparr>wg := n\<rparr>) c = get_counter s c"
  "get_counter (s\<lparr>pools := h\<rparr>) c = get_counter s c"
  "get_counter (s\<lparr>toFix_closed := b\<rparr>) c = get_counter s c"
  "get_counter (s\<lparr>toFix_buf := tb\<rparr>) c = get_counter s c"
  "get_counter (s\<lparr>crashed := p\<rparr>) c = get_counter s c"
  "get_counter (s\<lparr>tickC_pending := b\<rparr>) c = get_counter s c"
  "get_counter (s\<lparr>ticks := k\<rparr>) c = get_counter s c"
  "get_counter (s\<lparr>logged := l\<rparr>) c = get_counter s c"
  "get_counter (s\<lparr>reporter := r\<rparr>) c = get_counter s c"
  by (cases c; simp)+

section \<open>Lists under update\<close>

lemma count_update:
  "i < length xs \<Longrightarrow>
   length (filter P (xs[i := x])) + (if P (xs ! i) then 1 else 0) =
   length (filter P xs) + (if P x then 1 else 0)"
proof (induction xs arbitrary: i)
  case Nil
  then show ?case by simp
next
  case (Cons y ys)
  then show ?case by (cases i) auto
qed

lemma of_nat_count_update:
  assumes "i < length xs"
  shows "(of_nat (length (filter P (xs[i := x]))) :: 'a::ring_1) =
         of_nat (length (filter P xs)) + (if P x then 1 else 0) - (if P (xs ! i) then 1 else 0)"
proof -
  have "(of_nat (length (filter P (xs[i := x])) + (if P (xs ! i) then 1 else 0)) :: 'a) =
        of_nat (length (filter P xs) + (if P x then 1 else 0))"
    using count_update [OF assms, of P x] by simp
  then show ?thesis by (simp add: algebra_simps split: if_splits)
qed

lemma in_set_updateD: "y \<in> set (xs[i := x]) \<Longrightarrow> y \<noteq> x \<Longrightarrow> y \<in> set xs"
  using set_update_subset_insert [of xs i x] by auto

lemma in_set_update_cases: "y \<in> set (xs[i := x]) \<Longrightarrow> y = x \<or> y \<in> set xs"
  using set_update_subset_insert [of xs i x] by auto

section \<open>The invariants hold along every run\<close>

lemma wg_inv_step:
  assumes "step s a = Some s'" "wg_inv s"
  shows "wg_inv s'"
  using assms
  by (cases rule: step_cases)
     (auto simp: wg_inv_def counter_load_def counter_store_def
        of_nat_count_update [where 'a = int, simplified] split: option.splits)

lemma active_inv_step:
  assumes "step s a = Some s'" "active_inv s"
  shows "active_inv s'"
  using assms
  by (cases rule: step_cases)
     (auto simp: active_inv_def counter_load_def counter_store_def atomic_AddUint32_def
        of_nat_count_update [where 'a = "32 word"] split: option.splits)

lemma closed_inv_step:
  assumes "step s a = Some s'" "closed_inv s"
  shows "closed_inv s'"
  using assms
proof (cases rule: step_cases)
  case (wait_return q)
  with nth_mem [of q "calls s"] assms(2) show ?thesis
    by (auto simp: closed_inv_def)
next
  case (wg_done w)
  with nth_mem [of w "workers s"] assms(2) show ?thesis
    by (auto simp: closed_inv_def)
qed (auto simp: closed_inv_def counter_load_def counter_store_def
       dest: in_set_updateD split: option.splits)

lemma alive_wg_pos:
  assumes "wg_inv s" "w < length (workers s)" "workers s ! w \<noteq> WExited"
  shows "0 < wg s"
proof -
  have "workers s ! w \<in> set (filter (\<lambda>p. p \<noteq> WExited) (workers s))"
    using assms(2,3) by simp
  then have "0 < length (filter (\<lambda>p. p \<noteq> WExited) (workers s))"
    by (rule length_pos_if_in_set)
  with assms(1) show ?thesis by (simp add: wg_inv_def)
qed

lemma returned_inv_step:
  assumes "step s a = Some s'" "returned_inv s" "wg_inv s"
  shows "returned_inv s'"
  using assms
proof (cases rule: step_cases)
  case (wg_done w)
  with alive_wg_pos [OF assms(3), of w] assms(2) show ?thesis
    by (auto simp: returned_inv_def)
qed (auto simp: returned_inv_def counter_load_def counter_store_def
       dest: in_set_updateD)

lemma routes_inv_step:
  assumes "step s a = Some s'" "routes_inv s"
  shows "routes_inv s'"
  using assms
  by (cases rule: step_cases)
     (auto simp: routes_inv_def counter_load_def counter_store_def sends_of_def
        results_of_def tasks_of_def nth_list_update split: option.splits)

lemma unat_inc_le: "unat (v + 1 :: 64 word) \<le> unat v + 1"
  by (simp add: unat_word_ariths)

lemma counter_inv_step:
  assumes "step s a = Some s'" "counter_inv s"
  shows "counter_inv s'"
  using assms
proof (cases rule: step_cases)
  case (store w t c v)
  have v: "unat v \<le> incs c (trace s)"
    using assms(2) store(3,4) nth_mem [of w "workers s"]
    by (fastforce simp: counter_inv_def)
  show ?thesis
    unfolding counter_inv_def
  proof (intro allI conjI ballI)
    fix c'
    show "unat (get_counter s' c') \<le> incs c' (trace s')"
      using assms(2) v unat_inc_le [of v]
      by (auto simp: store counter_store_def counter_inv_def incs_def
            dest!: spec [of _ c'])
  next
    fix c' p u
    assume "p \<in> set (workers s')" "u \<in> set (loaded c' p)"
    then have "p \<in> set (workers s)"
      by (auto simp: store counter_store_def dest: in_set_updateD)
    with assms(2) \<open>u \<in> set (loaded c' p)\<close> have "unat u \<le> incs c' (trace s)"
      by (auto simp: counter_inv_def)
    then show "unat u \<le> incs c' (trace s')"
      by (auto simp: store counter_store_def incs_def)
  qed
next
  case (load w t c)
  show ?thesis
    unfolding counter_inv_def
  proof (intro allI conjI ballI)
    fix c'
    show "unat (get_counter s' c') \<le> incs c' (trace s')"
      using assms(2) by (auto simp: load counter_load_def counter_inv_def)
  next
    fix c' p u
    assume p: "p \<in> set (workers s')" "u \<in> set (loaded c' p)"
    then consider "p = WStore t c (get_counter s c)" | "p \<in> set (workers s)"
      using set_update_subset_insert [of "workers s" w]
      by (auto simp: load counter_load_def)
    then show "unat u \<le> incs c' (trace s')"
    proof cases
      case 1
      with p(2) assms(2) show ?thesis
        by (auto simp: load counter_load_def counter_inv_def split: if_splits)
    next
      case 2
      with p(2) assms(2) show ?thesis
        by (auto simp: load counter_load_def counter_inv_def)
    qed
  qed
qed (auto simp: counter_inv_def incs_def dest!: in_set_updateD split: option.splits)

lemma log_inv_step:
  assumes "step s a = Some s'" "log_inv s"
  shows "log_inv s'"
  using assms
  by (cases rule: step_cases)
     (auto simp: log_inv_def counter_load_def counter_store_def split: if_splits)

lemma reporter_inv_step:
  assumes "step s a = Some s'" "reporter_inv s"
  shows "reporter_inv s'"
  using assms
  by (cases rule: step_cases)
     (auto simp: reporter_inv_def counter_load_def counter_store_def)

lemma pool_inv_step:
  assumes "step s a = Some s'" "pool_inv s"
  shows "pool_inv s'"
  using assms
  by (cases rule: step_cases)
     (auto simp: pool_inv_def counter_load_def counter_store_def)

lemma crash_inv_step:
  assumes "step s a = Some s'" "crash_inv s" "wg_inv s"
  shows "crash_inv s'"
  using assms
proof (cases rule: step_cases)
  case (done_panic w)
  with alive_wg_pos [OF assms(3), of w] show ?thesis by simp
qed (auto simp: crash_inv_def counter_load_def counter_store_def)

lemma chan_inv_step:
  assumes "step s a = Some s'" "chan_inv s"
  shows "chan_inv s'"
  using assms
  by (cases rule: step_cases)
     (auto simp: chan_inv_def counter_load_def counter_store_def)

section \<open>QueueChain and the pools\<close>

lemma length_AddCert [simp]: "length (AddCert h p c) = length h"
  by (simp add: AddCert_def)

lemma AddCert_other: "a \<noteq> p \<Longrightarrow> AddCert h p c ! a = h ! a"
  by (simp add: AddCert_def)

lemma AddCert_same:
  "p < length h \<Longrightarrow> AddCert h p c ! p = (if c \<in> set (h ! p) then h ! p else h ! p @ [c])"
  by (simp add: AddCert_def)

lemma length_foldl_AddCert [simp]:
  "length (foldl (\<lambda>hp c. AddCert hp p c) h cs) = length h"
  by (induction cs arbitrary: h) simp_all

lemma foldl_AddCert_other:
  "a \<noteq> p \<Longrightarrow> foldl (\<lambda>hp c. AddCert hp p c) h cs ! a = h ! a"
  by (induction cs arbitrary: h) (simp_all add: AddCert_other)

lemma foldl_AddCert_set:
  "p < length h \<Longrightarrow> set (foldl (\<lambda>hp c. AddCert hp p c) h cs ! p) = set (h ! p) \<union> set cs"
proof (induction cs arbitrary: h)
  case Nil
  then show ?case by simp
next
  case (Cons c cs)
  have "set (foldl (\<lambda>hp c. AddCert hp p c) (AddCert h p c) cs ! p) =
        set (AddCert h p c ! p) \<union> set cs"
    using Cons.prems by (intro Cons.IH) simp
  then show ?case using Cons.prems by (auto simp: AddCert_same split: if_splits)
qed

lemma foldl_AddCert_distinct:
  "p < length h \<Longrightarrow> distinct cs \<Longrightarrow> set (h ! p) \<inter> set cs = {} \<Longrightarrow>
   foldl (\<lambda>hp c. AddCert hp p c) h cs ! p = h ! p @ cs"
proof (induction cs arbitrary: h)
  case Nil
  then show ?case by simp
next
  case (Cons c cs)
  have c: "c \<notin> set (h ! p)" using Cons.prems(3) by auto
  have "foldl (\<lambda>hp c. AddCert hp p c) (AddCert h p c) cs ! p = AddCert h p c ! p @ cs"
    using Cons.prems c by (intro Cons.IH) (auto simp: AddCert_same)
  then show ?case using Cons.prems(1) c by (simp add: AddCert_same)
qed

lemma foldl_AddCert_distinct_pool:
  "p < length h \<Longrightarrow> distinct (h ! p) \<Longrightarrow>
   distinct (foldl (\<lambda>hp c. AddCert hp p c) h cs ! p)"
proof (induction cs arbitrary: h)
  case Nil
  then show ?case by simp
next
  case (Cons c cs)
  have "distinct (foldl (\<lambda>hp c. AddCert hp p c) (AddCert h p c) cs ! p)"
    using Cons.prems by (intro Cons.IH) (auto simp: AddCert_same)
  then show ?case by simp
qed

lemma QueueChain_task_pools:
  "length (fst (QueueChain_task h crt d roots)) = length h + 1"
  "a < length h \<Longrightarrow> fst (QueueChain_task h crt d roots) ! a = h ! a"
  "set (fst (QueueChain_task h crt d roots) ! length h) = set (certs d)"
  "distinct (fst (QueueChain_task h crt d roots) ! length h)"
  "distinct (certs d) \<Longrightarrow> fst (QueueChain_task h crt d roots) ! length h = certs d"
  by (simp_all add: QueueChain_task_def NewCertPool_def foldl_AddCert_other nth_append
        foldl_AddCert_set foldl_AddCert_distinct foldl_AddCert_distinct_pool)

lemma QueueChain_task_snd:
  "snd (QueueChain_task h crt d roots) =
     \<lparr> cert = crt, chain = d,
       opts = \<lparr> Intermediates = length h, Roots = roots, DisableTimeChecks = True,
                KeyUsages = [ExtKeyUsageAny] \<rparr> \<rparr>"
  by (simp add: QueueChain_task_def NewCertPool_def)

lemma tasks_inv_step:
  assumes "step s a = Some s'" "tasks_inv s"
  shows "tasks_inv s'"
  using assms
proof (cases rule: step_cases)
  case (queue crt d roots)
  with assms(2) show ?thesis
    by (fastforce simp: tasks_inv_def QueueChain_task_pools(1) QueueChain_task_snd)
next
  case (enqueue q t)
  with assms(2) nth_mem [of q "calls s"] show ?thesis
    by (auto simp: tasks_inv_def dest!: in_set_update_cases)
next
  case (handoff q w t)
  with assms(2) nth_mem [of q "calls s"] show ?thesis
    by (auto simp: tasks_inv_def dest!: in_set_update_cases)
next
  case (inc w t)
  with assms(2) nth_mem [of w "workers s"] show ?thesis
    by (auto simp: tasks_inv_def dest!: in_set_update_cases)
next
  case (load w t c)
  with assms(2) nth_mem [of w "workers s"] show ?thesis
    by (auto simp: tasks_inv_def counter_load_def dest!: in_set_update_cases)
next
  case (store w t c v)
  with assms(2) nth_mem [of w "workers s"] show ?thesis
    by (auto simp: tasks_inv_def counter_store_def dest!: in_set_update_cases)
qed (auto simp: tasks_inv_def dest!: in_set_update_cases split: option.splits)

lemma step_pools:
  assumes "step s a = Some s'"
  shows "length (pools s) \<le> length (pools s') \<and>
         (\<forall>i < length (pools s). pools s' ! i = pools s ! i)"
  using assms
  by (cases rule: step_cases)
     (auto simp: counter_load_def counter_store_def QueueChain_task_pools)

section \<open>Runs\<close>

lemma run_invariant:
  assumes "run s as = Some s'" "P s"
    and "\<And>u a u'. P u \<Longrightarrow> step u a = Some u' \<Longrightarrow> P u'"
  shows "P s'"
  using assms(1,2)
proof (induction as arbitrary: s)
  case Nil
  then show ?case by simp
next
  case (Cons a as)
  then obtain u where u: "step s a = Some u" "run u as = Some s'"
    by (auto split: option.splits)
  show ?case
    by (rule Cons.IH [OF u(2) assms(3) [OF Cons.prems(2) u(1)]])
qed

lemma run_append: "run s (as @ bs) = (case run s as of None \<Rightarrow> None | Some u \<Rightarrow> run u bs)"
  by (induction as arbitrary: s) (auto split: option.splits)

lemma run_pools:
  assumes "run s as = Some s'"
  shows "length (pools s) \<le> length (pools s') \<and>
         (\<forall>i < length (pools s). pools s' ! i = pools s ! i)"
  using assms
proof (induction as arbitrary: s)
  case Nil
  then show ?case by simp
next
  case (Cons a as)
  then obtain u where u: "step s a = Some u" "run u as = Some s'"
    by (auto split: option.splits)
  from step_pools [OF u(1)] Cons.IH [OF u(2)] show ?case by auto
qed

lemma newFixServerPool_loop_eq:
  "newFixServerPool_loop i s =
     s\<lparr>workers := workers s @ replicate (100 - i) WRecv, wg := wg s + int (100 - i)\<rparr>"
proof (induction i s rule: newFixServerPool_loop.induct)
  case (1 i s)
  show ?case
  proof (cases "i < 100")
    case True
    then have r: "replicate (100 - i) (WRecv :: ('a, 'b) wpc) =
        WRecv # replicate (100 - (i + 1)) WRecv"
      by (simp add: Suc_diff_Suc flip: replicate_Suc)
    have k: "int (100 - i) = 1 + int (100 - (i + 1))"
      using True by simp
    show ?thesis
      using True "1.IH" [OF True]
      by (subst newFixServerPool_loop.simps) (simp add: go_fixServer_def wg_Add_def r k)
  next
    case False
    then show ?thesis by (subst newFixServerPool_loop.simps) simp
  qed
qed

lemma NewFixer_eq:
  "NewFixer h0 =
     \<lparr> toFix_cap = 0, toFix_buf = [], toFix_closed = False,
       workers = replicate 100 WRecv, calls = [], wg = 100, active = 0,
       reconstructed = 0, notReconstructed = 0, fixed = 0, notFixed = 0,
       skipped = 0, alreadyDone = 0, pools = h0, reporter = RRecv,
       ticker_running = True, ticker_d = time_Second, tickC_pending = False,
       tickC_closed = False, ticks = 0, logged = [], trace = [],
       crashed = None \<rparr>"
  by (simp add: NewFixer_def logStats_def newFixServerPool_def newFixServerPool_loop_eq)

lemma invariant_NewFixer: "invariant (NewFixer h0)"
  unfolding invariant_def
proof (intro conjI)
  show "wg_inv (NewFixer h0)"
    by (simp add: NewFixer_eq wg_inv_def)
  show "closed_inv (NewFixer h0)"
    by (simp add: NewFixer_eq closed_inv_def)
  show "returned_inv (NewFixer h0)"
    by (simp add: NewFixer_eq returned_inv_def)
  show "active_inv (NewFixer h0)"
    by (simp add: NewFixer_eq active_inv_def)
  show "routes_inv (NewFixer h0)"
    by (simp add: NewFixer_eq routes_inv_def sends_of_def results_of_def tasks_of_def)
  show "counter_inv (NewFixer h0)"
    by (auto simp: NewFixer_eq counter_inv_def incs_def) (case_tac c; simp)+
  show "log_inv (NewFixer h0)"
    by (simp add: NewFixer_eq log_inv_def)
  show "reporter_inv (NewFixer h0)"
    by (simp add: NewFixer_eq reporter_inv_def)
  show "pool_inv (NewFixer h0)"
    by (simp add: NewFixer_eq pool_inv_def)
  show "crash_inv (NewFixer h0)"
    by (simp add: NewFixer_eq crash_inv_def)
  show "chan_inv (NewFixer h0)"
    by (simp add: NewFixer_eq chan_inv_def)
  show "tasks_inv (NewFixer h0)"
    by (simp add: NewFixer_eq tasks_inv_def)
qed

lemma invariant_step:
  assumes "invariant s" "step s a = Some s'"
  shows "invariant s'"
  using assms
  by (simp add: invariant_def wg_inv_step closed_inv_step returned_inv_step active_inv_step
        routes_inv_step counter_inv_step log_inv_step reporter_inv_step pool_inv_step
        crash_inv_step chan_inv_step tasks_inv_step)

lemma invariant_run:
  assumes "run (NewFixer h0) as = Some s"
  shows "invariant s"
  using assms invariant_NewFixer invariant_step by (rule run_invariant)

section \<open>Some runs in closed form\<close>

lemma run_LoopExit:
  assumes "toFix_closed s" "toFix_buf s = []" "crashed s = None"
    "workers s = replicate k WDone @ replicate m WRecv"
  shows "run s (map LoopExit [k..<k + m]) = Some (s\<lparr>workers := replicate (k + m) WDone\<rparr>)"
  using assms
proof (induction m arbitrary: s k)
  case 0
  then show ?case by (simp flip: 0(4))
next
  case (Suc m)
  let ?u = "s\<lparr>workers := replicate (Suc k) WDone @ replicate m WRecv\<rparr>"
  have st: "step s (LoopExit k) = Some ?u"
    using Suc.prems by (simp add: step_def nth_append list_update_append replicate_app_Cons_same)
  have "run ?u (map LoopExit [Suc k..<Suc k + m]) =
        Some (?u\<lparr>workers := replicate (Suc k + m) WDone\<rparr>)"
    using Suc.prems by (intro Suc.IH) simp_all
  moreover have "map LoopExit [k..<k + Suc m] =
      (LoopExit k :: ('a, 'b) action) # map LoopExit [Suc k..<Suc k + m]"
    by (simp add: upt_conv_Cons del: upt_Suc)
  ultimately show ?case using st by (simp del: upt_Suc)
qed

lemma run_WgDone:
  assumes "crashed s = None" "workers s = replicate k WExited @ replicate m WDone"
    "wg s = int m"
  shows "run s (map WgDone [k..<k + m]) =
         Some (s\<lparr>wg := 0, workers := replicate (k + m) WExited\<rparr>)"
  using assms
proof (induction m arbitrary: s k)
  case 0
  then show ?case by (simp flip: 0(2,3))
next
  case (Suc m)
  let ?u = "s\<lparr>wg := int m, workers := replicate (Suc k) WExited @ replicate m WDone\<rparr>"
  have st: "step s (WgDone k) = Some ?u"
    using Suc.prems by (simp add: step_def nth_append list_update_append replicate_app_Cons_same)
  have "run ?u (map WgDone [Suc k..<Suc k + m]) =
        Some (?u\<lparr>wg := 0, workers := replicate (Suc k + m) WExited\<rparr>)"
    using Suc.prems by (intro Suc.IH) simp_all
  moreover have "map WgDone [k..<k + Suc m] =
      (WgDone k :: ('a, 'b) action) # map WgDone [Suc k..<Suc k + m]"
    by (simp add: upt_conv_Cons del: upt_Suc)
  ultimately show ?case using st by (simp del: upt_Suc)
qed

lemma run_shutdown:
  "run (NewFixer h) shutdown_sched =
     Some ((NewFixer h)\<lparr>toFix_closed := True, calls := [WtReturned], wg := 0,
                         workers := replicate 100 WExited\<rparr>)"
proof -
  let ?s1 = "(NewFixer h)\<lparr>toFix_closed := True, calls := [WtWait]\<rparr>"
  let ?s2 = "?s1\<lparr>workers := replicate 100 WDone\<rparr>"
  let ?s3 = "?s2\<lparr>wg := 0, workers := replicate 100 WExited\<rparr>"
  let ?s4 = "(NewFixer h)\<lparr>toFix_closed := True, calls := [WtReturned], wg := 0,
                           workers := replicate 100 WExited\<rparr>"
  have a: "run (NewFixer h) [CallWait, Caller 0] = Some ?s1"
    by (simp add: step_def NewFixer_eq)
  have b: "run ?s1 (map LoopExit [0..<100]) = Some ?s2"
    using run_LoopExit [of ?s1 0 100] by (simp add: NewFixer_eq)
  have c: "run ?s2 (map WgDone [0..<100]) = Some ?s3"
    using run_WgDone [of ?s2 0 100] by (simp add: NewFixer_eq)
  have d: "run ?s3 [Caller 0] = Some ?s4"
    by (simp add: step_def NewFixer_eq)
  have e: "shutdown_sched = [CallWait, Caller 0] @ map LoopExit [0..<100] @
          map WgDone [0..<100] @ [Caller 0 :: ('a, 'b) action]"
    by (simp add: shutdown_sched_def)
  show ?thesis
    unfolding e by (simp only: run_append a b c d option.case)
qed



text \<open>The rules that evaluate a run on given data.\<close>

lemmas run_eval =
  step_def NewFixer_eq split_def Let_def QueueChain_task_def NewCertPool_def AddCert_def
  counter_load_def counter_store_def atomic_AddUint32_def snapshot_def

lemma demo_route_run: "run demo_fixer demo_route_sched = Some demo_route_state"
  by (simp add: demo_route_state_def demo_route_sched_def demo_fixer_def run_eval)


lemma demo_shutdown_run: "run demo_fixer shutdown_sched = Some demo_shutdown_state"
  by (simp add: demo_shutdown_state_def demo_fixer_def run_shutdown)

lemma demo_shutdown_fields:
  "workers demo_shutdown_state = replicate 100 WExited"
  "calls demo_shutdown_state = [WtReturned]"
  "toFix_closed demo_shutdown_state"
  "crashed demo_shutdown_state = None"
  "trace demo_shutdown_state = []"
  "wg demo_shutdown_state = 0"
  "active demo_shutdown_state = 0"
  unfolding demo_shutdown_state_def demo_fixer_def run_shutdown option.sel
  by (simp_all add: NewFixer_eq)

lemma demo_calling_run: "run demo_fixer [CallWait] = Some demo_calling_state"
  by (simp add: demo_calling_state_def demo_fixer_def run_eval)

lemma demo_calling_fields:
  "calls demo_calling_state = [WtClose]"
  "\<not> toFix_closed demo_calling_state"
  "crashed demo_calling_state = None"
  by (simp_all add: demo_calling_state_def demo_fixer_def run_eval)

lemma demo_closing_run: "run demo_fixer [CallWait, Caller 0] = Some demo_closing_state"
  by (simp add: demo_closing_state_def demo_fixer_def run_eval)

lemma demo_closing_fields:
  "calls demo_closing_state = [WtWait]"
  "toFix_closed demo_closing_state"
  "crashed demo_closing_state = None"
  "pools demo_closing_state = [[5]]"
  by (simp_all add: demo_closing_state_def demo_fixer_def run_eval)

lemma demo_waiting_run:
  "run demo_fixer [CallWait, Caller 0, LoopExit 0, WgDone 0] = Some demo_waiting_state"
  by (simp add: demo_waiting_state_def demo_fixer_def run_eval)

lemma demo_waiting_fields:
  "calls demo_waiting_state = [WtWait]"
  "workers demo_waiting_state = (replicate 100 WRecv)[0 := WExited]"
  "wg demo_waiting_state = 99"
  by (simp_all add: demo_waiting_state_def demo_fixer_def run_eval)

lemma demo_after_run: "run demo_shutdown_state demo_after_sched = Some demo_after_state"
  unfolding demo_after_state_def demo_shutdown_state_def demo_fixer_def run_shutdown option.sel
  by (simp add: demo_after_sched_def run_eval)

lemma demo_after_fields:
  "trace demo_after_state = []"
  "calls demo_after_state = [WtReturned, QSend demo_task1]"
  "length (logged demo_after_state) = 1"
  unfolding demo_after_state_def demo_shutdown_state_def demo_fixer_def run_shutdown option.sel
  by (simp_all add: demo_after_sched_def run_eval demo_task1_def)

lemma demo_late_run: "run demo_fixer demo_late_sched = Some demo_late_state"
  by (simp add: demo_late_state_def demo_late_sched_def demo_fixer_def run_eval)

lemma demo_late_fields:
  "calls demo_late_state = [WtWait, QSend demo_task1]"
  "crashed demo_late_state = Some SendOnClosedChannel"
  by (simp_all add: demo_late_state_def demo_late_sched_def demo_fixer_def run_eval
        demo_task1_def)

lemma demo_inc_run: "run demo_fixer (take 4 demo_route_sched) = Some demo_inc_state"
  by (simp add: demo_inc_state_def demo_route_sched_def demo_fixer_def run_eval)

lemma demo_inc_fields:
  "length (workers demo_inc_state) = 100"
  "workers demo_inc_state ! 3 = WInc demo_task1"
  "active demo_inc_state = 0"
  "crashed demo_inc_state = None"
  by (simp_all add: demo_inc_state_def demo_route_sched_def demo_fixer_def run_eval
        demo_task1_def demo_task2_def)

lemma demo_dec_run: "run demo_fixer (take 8 demo_route_sched) = Some demo_dec_state"
  by (simp add: demo_dec_state_def demo_route_sched_def demo_fixer_def run_eval)

lemma demo_dec_fields:
  "length (workers demo_dec_state) = 100"
  "workers demo_dec_state ! 3 = WDec"
  "active demo_dec_state = 2"
  "crashed demo_dec_state = None"
  by (simp_all add: demo_dec_state_def demo_route_sched_def demo_fixer_def run_eval
        demo_task1_def demo_task2_def)

lemma demo_lost_run: "run demo_fixer demo_lost_sched = Some demo_lost_state"
  by (simp add: demo_lost_state_def demo_lost_sched_def demo_fixer_def run_eval)

lemma demo_lost_fields:
  "fixed demo_lost_state = 1"
  "trace demo_lost_state =
     [EvDequeue 3 demo_task1, EvDequeue 4 demo_task2, EvIncrement 3 Fixed,
      EvIncrement 4 Fixed]"
  "workers demo_lost_state ! 3 = WHandle demo_task1"
  "length (workers demo_lost_state) = 100"
  "crashed demo_lost_state = None"
  "skipped demo_lost_state = 0"
  by (simp_all add: demo_lost_state_def demo_lost_sched_def demo_fixer_def run_eval
        demo_task1_def demo_task2_def)

lemma demo_queued_run:
  "run demo_fixer [CallQueueChain 7 (DedupedChain [11, 12]) 0] = Some demo_queued_state"
  by (simp add: demo_queued_state_def demo_fixer_def run_eval)

lemma demo_queued_fields:
  "calls demo_queued_state = [QSend demo_task1]"
  "pools demo_queued_state = [[5], [11, 12]]"
  "crashed demo_queued_state = None"
  by (simp_all add: demo_queued_state_def demo_fixer_def run_eval demo_task1_def)

lemma demo_handed_run:
  "run demo_fixer [CallQueueChain 7 (DedupedChain [11, 12]) 0, Handoff 0 3] =
     Some demo_handed_state"
  by (simp add: demo_handed_state_def demo_fixer_def run_eval)

lemma demo_handed_fields:
  "calls demo_handed_state = [QReturned]"
  "pools demo_handed_state = [[5], [11, 12]]"
  "crashed demo_handed_state = None"
  "length (workers demo_handed_state) = 100"
  "workers demo_handed_state ! 3 = WInc demo_task1"
  by (simp_all add: demo_handed_state_def demo_fixer_def run_eval demo_task1_def)

section \<open>The claims\<close>

text \<open>
  C6. \<^verbatim>\<open>NewFixer\<close> starts a pool of exactly 100 workers: the Fixer it returns has 100
  worker goroutines, all waiting at the receive of line 60, and the WaitGroup counts
  100; the pool has 100 workers in every later state too. All of them read the one
  intake channel of the Fixer: a task queued on the fresh Fixer can be taken by any
  worker \<open>w\<close> of the hundred.
\<close>

theorem NewFixer_starts_100_workers:
  "length (workers (NewFixer h :: ('c, 'e) state)) = 100 \<and>
   list_all (\<lambda>p. p = WRecv) (workers (NewFixer h :: ('c, 'e) state)) \<and>
   wg (NewFixer h :: ('c, 'e) state) = 100 \<and>
   (run (NewFixer h) as = Some (s :: ('c, 'e) state) \<longrightarrow> length (workers s) = 100) \<and>
   (w < 100 \<longrightarrow>
      (\<exists>u :: ('c, 'e) state.
          run (NewFixer h) [CallQueueChain crt d roots, Handoff 0 w] = Some u \<and>
          workers u ! w = WInc (snd (QueueChain_task h crt d roots))))"
proof (intro conjI impI)
  show "length (workers (NewFixer h :: ('c, 'e) state)) = 100" by (simp add: NewFixer_eq)
  show "list_all (\<lambda>p. p = WRecv) (workers (NewFixer h :: ('c, 'e) state))"
    by (simp add: NewFixer_eq list_all_iff)
  show "wg (NewFixer h :: ('c, 'e) state) = 100" by (simp add: NewFixer_eq)
next
  assume "run (NewFixer h) as = Some s"
  from invariant_run [OF this] show "length (workers s) = 100"
    by (simp add: invariant_def pool_inv_def)
next
  assume "w < 100"
  then show "\<exists>u :: ('c, 'e) state.
          run (NewFixer h) [CallQueueChain crt d roots, Handoff 0 w] = Some u \<and>
          workers u ! w = WInc (snd (QueueChain_task h crt d roots))"
    by (simp add: step_def NewFixer_eq split_def Let_def)
qed

theorem NewFixer_starts_100_workers_witness:
  "length (workers demo_fixer) = 100 \<and>
   list_all (\<lambda>p. p = WRecv) (workers demo_fixer) \<and>
   wg demo_fixer = 100 \<and>
   run demo_fixer demo_route_sched = Some demo_route_state \<and>
   length (workers demo_route_state) = 100 \<and>
   (99 :: nat) < 100 \<and>
   (\<exists>u. run demo_fixer [CallQueueChain 7 (DedupedChain [11, 12]) 0, Handoff 0 99] = Some u \<and>
        workers u ! 99 = WInc demo_task1)"
proof -
  have t: "snd (QueueChain_task [[5]] 7 (DedupedChain [11, 12]) 0) = demo_task1"
    by (simp add: QueueChain_task_snd demo_task1_def)
  show ?thesis
    using NewFixer_starts_100_workers [where 'c = nat and 'e = nat, of "[[5]]"
        demo_route_sched demo_route_state 99 7 "DedupedChain [11, 12]" 0]
      demo_route_run
    unfolding t demo_fixer_def [symmetric]
    by simp
qed



section \<open>Shutdown\<close>

lemma all_exited_step:
  assumes "step s a = Some s'" "list_all (\<lambda>p. p = WExited) (workers s)"
  shows "workers s' = workers s \<and> trace s' = trace s"
  using assms
  by (cases rule: step_cases)
     (auto simp: list_all_length counter_load_def counter_store_def)

lemma all_exited_run:
  assumes "run s bs = Some s'" "list_all (\<lambda>p. p = WExited) (workers s)"
  shows "workers s' = workers s \<and> trace s' = trace s"
  using assms
proof (induction bs arbitrary: s)
  case Nil
  then show ?case by simp
next
  case (Cons b bs)
  then obtain u where u: "step s b = Some u" "run u bs = Some s'"
    by (auto split: option.splits)
  from all_exited_step [OF u(1) Cons.prems(2)] Cons.IH [OF u(2)] Cons.prems(2)
  show ?case by simp
qed

lemma wg_zero_all_exited:
  assumes "wg_inv s" "wg s = 0"
  shows "list_all (\<lambda>p. p = WExited) (workers s)"
  using assms by (auto simp: wg_inv_def list_all_iff filter_empty_conv)

lemma not_all_exited_wg_pos:
  assumes "wg_inv s" "\<not> list_all (\<lambda>p. p = WExited) (workers s)"
  shows "wg s \<noteq> 0"
  using assms wg_zero_all_exited by blast

text \<open>
  C2. \<^verbatim>\<open>Wait\<close> closes the intake channel: a call of \<^verbatim>\<open>Wait\<close> at line 53 closes the open
  channel and goes on to \<^verbatim>\<open>f.wg.Wait()\<close>, and whenever some call of \<^verbatim>\<open>Wait\<close> is past
  line 53 the channel is closed. \<^verbatim>\<open>Wait\<close> blocks until every worker has returned:
  at line 54 it cannot take a step while a worker has not returned, and when a call
  of \<^verbatim>\<open>Wait\<close> has returned, all workers have. From then on nothing is sent on the
  egress channels: in every continuation \<open>bs\<close> of the run the history of worker
  events, and so the values sent on \<^verbatim>\<open>f.chains\<close> and \<^verbatim>\<open>f.errors\<close>, stay as they are.
\<close>

theorem Wait_returns_after_workers_exit:
  assumes "run (NewFixer h) as = Some s"
  shows "(q < length (calls s) \<and> calls s ! q = WtClose \<and> \<not> toFix_closed s \<and>
            crashed s = None \<longrightarrow>
            step s (Caller q) =
              Some (s\<lparr>toFix_closed := True, calls := (calls s)[q := WtWait]\<rparr>)) \<and>
         (WtWait \<in> set (calls s) \<or> WtReturned \<in> set (calls s) \<longrightarrow> toFix_closed s) \<and>
         (q < length (calls s) \<and> calls s ! q = WtWait \<and>
            \<not> list_all (\<lambda>p. p = WExited) (workers s) \<longrightarrow> step s (Caller q) = None) \<and>
         (WtReturned \<in> set (calls s) \<longrightarrow>
            list_all (\<lambda>p. p = WExited) (workers s) \<and>
            (run s bs = Some s' \<longrightarrow>
               trace s' = trace s \<and> egress_of (trace s') = egress_of (trace s)))"
proof -
  from invariant_run [OF assms]
  have w: "wg_inv s" and c: "closed_inv s" and r: "returned_inv s"
    by (simp_all add: invariant_def)
  have 1: "q < length (calls s) \<and> calls s ! q = WtClose \<and> \<not> toFix_closed s \<and>
            crashed s = None \<longrightarrow>
            step s (Caller q) =
              Some (s\<lparr>toFix_closed := True, calls := (calls s)[q := WtWait]\<rparr>)"
    by (simp add: step_def)
  have 2: "WtWait \<in> set (calls s) \<or> WtReturned \<in> set (calls s) \<longrightarrow> toFix_closed s"
    using c by (auto simp: closed_inv_def)
  have 3: "q < length (calls s) \<and> calls s ! q = WtWait \<and>
            \<not> list_all (\<lambda>p. p = WExited) (workers s) \<longrightarrow> step s (Caller q) = None"
    using not_all_exited_wg_pos [OF w] by (simp add: step_def)
  have 4: "WtReturned \<in> set (calls s) \<longrightarrow>
            list_all (\<lambda>p. p = WExited) (workers s) \<and>
            (run s bs = Some s' \<longrightarrow>
               trace s' = trace s \<and> egress_of (trace s') = egress_of (trace s))"
  proof (intro impI conjI)
    assume "WtReturned \<in> set (calls s)"
    with r have "wg s = 0" by (simp add: returned_inv_def)
    with w show e: "list_all (\<lambda>p. p = WExited) (workers s)"
      by (rule wg_zero_all_exited)
    assume "run s bs = Some s'"
    from all_exited_run [OF this e] show "trace s' = trace s"
      and "egress_of (trace s') = egress_of (trace s)"
      by simp_all
  qed
  from 1 2 3 4 show ?thesis by blast
qed

theorem Wait_returns_after_workers_exit_witness:
  "run demo_fixer [CallWait] = Some demo_calling_state \<and>
   calls demo_calling_state ! 0 = WtClose \<and>
   step demo_calling_state (Caller 0) =
     Some (demo_calling_state\<lparr>toFix_closed := True, calls := [WtWait]\<rparr>) \<and>
   run demo_fixer [CallWait, Caller 0, LoopExit 0, WgDone 0] = Some demo_waiting_state \<and>
   calls demo_waiting_state ! 0 = WtWait \<and>
   toFix_closed demo_waiting_state \<and>
   \<not> list_all (\<lambda>p. p = WExited) (workers demo_waiting_state) \<and>
   step demo_waiting_state (Caller 0) = None \<and>
   run demo_fixer shutdown_sched = Some demo_shutdown_state \<and>
   WtReturned \<in> set (calls demo_shutdown_state) \<and>
   toFix_closed demo_shutdown_state \<and>
   list_all (\<lambda>p. p = WExited) (workers demo_shutdown_state) \<and>
   run demo_shutdown_state demo_after_sched = Some demo_after_state \<and>
   trace demo_after_state = trace demo_shutdown_state \<and>
   egress_of (trace demo_after_state) = egress_of (trace demo_shutdown_state)"
proof -
  note a = Wait_returns_after_workers_exit [OF demo_calling_run [unfolded demo_fixer_def],
      of 0]
  note b = Wait_returns_after_workers_exit [OF demo_waiting_run [unfolded demo_fixer_def],
      of 0]
  note c = Wait_returns_after_workers_exit [OF demo_shutdown_run [unfolded demo_fixer_def],
      of _ demo_after_sched demo_after_state]
  have "workers demo_waiting_state ! 1 \<noteq> WExited" "1 < length (workers demo_waiting_state)"
    by (simp_all add: demo_waiting_fields)
  then have n: "\<not> list_all (\<lambda>p. p = WExited) (workers demo_waiting_state)"
    by (auto simp: list_all_length)
  show ?thesis
    using a b c n demo_calling_run demo_waiting_run demo_shutdown_run demo_after_run
    by (simp add: demo_calling_fields demo_waiting_fields(1) demo_shutdown_fields(2))
qed

text \<open>
  C10. A second call of \<^verbatim>\<open>Wait\<close> panics: once some call of \<^verbatim>\<open>Wait\<close> is past line 53
  (it waits at line 54 or has returned), a further call of \<^verbatim>\<open>Wait\<close> runs into
  \<^verbatim>\<open>close(f.toFix)\<close> on the closed channel, and the process ends with the panic
  "close of closed channel".
\<close>

theorem second_Wait_panics:
  assumes "run (NewFixer h) as = Some s"
    and "WtWait \<in> set (calls s) \<or> WtReturned \<in> set (calls s)"
    and "crashed s = None"
  shows "run s [CallWait, Caller (length (calls s))] =
           Some (s\<lparr>calls := calls s @ [WtClose], crashed := Some CloseOfClosedChannel\<rparr>)"
proof -
  from invariant_run [OF assms(1)] assms(2) have "toFix_closed s"
    by (auto simp: invariant_def closed_inv_def)
  with assms(3) show ?thesis by (simp add: step_def)
qed

theorem second_Wait_panics_witness:
  "run demo_fixer [CallWait, Caller 0] = Some demo_closing_state \<and>
   WtWait \<in> set (calls demo_closing_state) \<and>
   crashed demo_closing_state = None \<and>
   run demo_closing_state [CallWait, Caller 1] =
     Some (demo_closing_state\<lparr>calls := [WtWait, WtClose],
                               crashed := Some CloseOfClosedChannel\<rparr>) \<and>
   run demo_fixer shutdown_sched = Some demo_shutdown_state \<and>
   WtReturned \<in> set (calls demo_shutdown_state) \<and>
   crashed demo_shutdown_state = None \<and>
   run demo_shutdown_state [CallWait, Caller 1] =
     Some (demo_shutdown_state\<lparr>calls := [WtReturned, WtClose],
                                crashed := Some CloseOfClosedChannel\<rparr>)"
proof -
  have a: "WtWait \<in> set (calls demo_closing_state) \<or> WtReturned \<in> set (calls demo_closing_state)"
    and b: "WtWait \<in> set (calls demo_shutdown_state) \<or>
            WtReturned \<in> set (calls demo_shutdown_state)"
    by (simp_all add: demo_closing_fields demo_shutdown_fields)
  note p = second_Wait_panics [OF demo_closing_run [unfolded demo_fixer_def] a
      demo_closing_fields(3)]
  note q = second_Wait_panics [OF demo_shutdown_run [unfolded demo_fixer_def] b
      demo_shutdown_fields(4)]
  show ?thesis
    using p q demo_closing_run demo_shutdown_run
    by (simp add: demo_closing_fields demo_shutdown_fields del: run.simps)
qed

lemma closed_send_stuck_step:
  assumes "step u a = Some u'"
    and "toFix_closed u" "q < length (calls u)" "calls u ! q = QSend t"
  shows "toFix_closed u' \<and> q < length (calls u') \<and> calls u' ! q = QSend t"
  using assms
  by (cases rule: step_cases)
     (auto simp: counter_load_def counter_store_def nth_append nth_list_update)

lemma closed_send_stuck_run:
  assumes "run u bs = Some u'"
    and "toFix_closed u" "q < length (calls u)" "calls u ! q = QSend t"
  shows "calls u' ! q = QSend t"
proof -
  have "toFix_closed u' \<and> q < length (calls u') \<and> calls u' ! q = QSend t"
    using assms(1)
  proof (rule run_invariant)
    show "toFix_closed u \<and> q < length (calls u) \<and> calls u ! q = QSend t"
      using assms by simp
  next
    fix v a v'
    assume "toFix_closed v \<and> q < length (calls v) \<and> calls v ! q = QSend t"
      and "step v a = Some v'"
    then show "toFix_closed v' \<and> q < length (calls v') \<and> calls v' ! q = QSend t"
      using closed_send_stuck_step by blast
  qed
  then show ?thesis by simp
qed

text \<open>
  C3, as the code has it. A call of \<^verbatim>\<open>QueueChain\<close> made when some call of \<^verbatim>\<open>Wait\<close> is
  past line 53 builds its task and runs into the send of line 48 on the closed
  channel: the process ends with the panic "send on closed channel". The call
  returns no error (\<^verbatim>\<open>QueueChain\<close> has no result), and in no
  continuation \<open>bs\<close> does it hand its task over or return: it stays at the send.
\<close>

theorem QueueChain_after_close_panics:
  assumes "run (NewFixer h) as = Some s"
    and "WtWait \<in> set (calls s) \<or> WtReturned \<in> set (calls s)"
    and "crashed s = None"
  shows "run s [CallQueueChain crt d roots, Caller (length (calls s))] =
           Some (s\<lparr>pools := fst (QueueChain_task (pools s) crt d roots),
                    calls := calls s @ [QSend (snd (QueueChain_task (pools s) crt d roots))],
                    crashed := Some SendOnClosedChannel\<rparr>) \<and>
         (run s (CallQueueChain crt d roots # bs) = Some s' \<longrightarrow>
            calls s' ! length (calls s) = QSend (snd (QueueChain_task (pools s) crt d roots)))"
proof -
  let ?t = "snd (QueueChain_task (pools s) crt d roots)"
  let ?u = "s\<lparr>pools := fst (QueueChain_task (pools s) crt d roots),
               calls := calls s @ [QSend ?t]\<rparr>"
  from invariant_run [OF assms(1)] assms(2) have cl: "toFix_closed s"
    by (auto simp: invariant_def closed_inv_def)
  have st: "step s (CallQueueChain crt d roots) = Some ?u"
    using assms(3) by (simp add: step_def split_def Let_def)
  have 1: "run s [CallQueueChain crt d roots, Caller (length (calls s))] =
           Some (?u\<lparr>crashed := Some SendOnClosedChannel\<rparr>)"
    using st cl assms(3) by (simp add: step_def)
  have 2: "run s (CallQueueChain crt d roots # bs) = Some s' \<longrightarrow>
            calls s' ! length (calls s) = QSend ?t"
  proof
    assume "run s (CallQueueChain crt d roots # bs) = Some s'"
    with st have "run ?u bs = Some s'" by simp
    then show "calls s' ! length (calls s) = QSend ?t"
      by (rule closed_send_stuck_run) (simp_all add: cl)
  qed
  from 1 2 show ?thesis by simp
qed

theorem QueueChain_after_close_panics_witness:
  "run demo_fixer [CallWait, Caller 0] = Some demo_closing_state \<and>
   WtWait \<in> set (calls demo_closing_state) \<and>
   crashed demo_closing_state = None \<and>
   run demo_closing_state [CallQueueChain 7 (DedupedChain [11, 12]) 0, Caller 1] =
     Some (demo_closing_state\<lparr>pools := [[5], [11, 12]],
                               calls := [WtWait, QSend demo_task1],
                               crashed := Some SendOnClosedChannel\<rparr>) \<and>
   run demo_closing_state [CallQueueChain 7 (DedupedChain [11, 12]) 0, Tick, LoopExit 5] \<noteq> None \<and>
   calls (the (run demo_closing_state
                 [CallQueueChain 7 (DedupedChain [11, 12]) 0, Tick, LoopExit 5])) ! 1 =
     QSend demo_task1"
proof -
  let ?bs = "[Tick, LoopExit 5] :: (nat, nat) action list"
  let ?r = "run demo_closing_state (CallQueueChain 7 (DedupedChain [11, 12]) 0 # ?bs)"
  have a: "WtWait \<in> set (calls demo_closing_state) \<or> WtReturned \<in> set (calls demo_closing_state)"
    by (simp add: demo_closing_fields)
  have r': "?r \<noteq> None"
    unfolding demo_closing_state_def demo_fixer_def
    by (simp add: run_eval)
  then have r: "?r = Some (the ?r)"
    by simp
  have t: "QueueChain_task [[5]] 7 (DedupedChain [11, 12]) 0 = ([[5], [11, 12]], demo_task1)"
    by (simp add: run_eval demo_task1_def)
  note p = QueueChain_after_close_panics [OF demo_closing_run [unfolded demo_fixer_def] a
      demo_closing_fields(3), of 7 "DedupedChain [11, 12]" 0 ?bs "the ?r",
      THEN conjunct2, rule_format]
  note p0 = QueueChain_after_close_panics [OF demo_closing_run [unfolded demo_fixer_def] a
      demo_closing_fields(3), of 7 "DedupedChain [11, 12]" 0 ?bs "the ?r",
      THEN conjunct1]
  show ?thesis
    using p [OF r] p0 r' demo_closing_run
    by (simp add: demo_closing_fields t del: run.simps)
qed

text \<open>
  C3, the claim as stated fails: \<^verbatim>\<open>Wait\<close> closes the channel, then \<^verbatim>\<open>QueueChain\<close> is
  called; the call ends in the panic of the send, not in an error.
\<close>

theorem QueueChain_after_close_counterexample:
  "run demo_fixer demo_late_sched = Some demo_late_state \<and>
   calls demo_late_state = [WtWait, QSend demo_task1] \<and>
   crashed demo_late_state = Some SendOnClosedChannel"
  by (simp add: demo_late_run demo_late_fields)

section \<open>The active count, the counters and the reporter\<close>

lemma unat_active:
  assumes "active_inv s" "pool_inv s"
  shows "unat (active s) = length (filter handling (workers s))"
proof -
  have "length (filter handling (workers s)) \<le> length (workers s)"
    by (rule length_filter_le)
  with assms(2) have "length (filter handling (workers s)) < 2 ^ 32"
    by (simp add: pool_inv_def)
  then have "unat (of_nat (length (filter handling (workers s))) :: 32 word) =
      length (filter handling (workers s))"
    by (simp add: unat_of_nat)
  with assms(1) show ?thesis by (simp add: active_inv_def)
qed

text \<open>
  C9. In every reachable state \<^verbatim>\<open>f.active\<close> is the number of workers between the atomic
  add of line 61 and that of line 70, which are the workers handling a task (a
  worker that has received its task and not yet executed line 61 is not counted
  yet, one that has pushed its result and not yet executed line 70 still is). Line 61
  is the first step of a worker after it has received a task and adds exactly one;
  line 70, the step after the result has been pushed, adds \<^verbatim>\<open>^uint32(0)\<close>, which is
  \<open>0xFFFFFFFF\<close>, and so takes exactly one off; no other step changes \<^verbatim>\<open>f.active\<close>.
  When no worker is handling a task \<^verbatim>\<open>f.active\<close> is 0, and it is 0 after \<^verbatim>\<open>Wait\<close> has
  returned.
\<close>

theorem active_counts_handling_workers:
  assumes "run (NewFixer h) as = Some s"
  shows "unat (active s) = length (filter handling (workers s)) \<and>
         (step s (Inc w) = Some s1 \<longrightarrow>
            (\<exists>t. workers s ! w = WInc t \<and> workers s1 ! w = WHandle t) \<and>
            unat (active s1) = unat (active s) + 1) \<and>
         (step s (Dec w) = Some s2 \<longrightarrow>
            (workers s ! w = WDec \<or> workers s ! w = WSendChains []) \<and>
            workers s2 ! w = WRecv \<and> active s2 = active s + 0xFFFFFFFF \<and>
            unat (active s2) + 1 = unat (active s)) \<and>
         (step s a = Some s' \<and> active s' \<noteq> active s \<longrightarrow>
            (\<exists>v. a = Inc v \<or> a = Dec v)) \<and>
         (list_all (\<lambda>p. \<not> handling p) (workers s) \<longrightarrow> active s = 0) \<and>
         (WtReturned \<in> set (calls s) \<longrightarrow> active s = 0)"
proof -
  from invariant_run [OF assms] have i: "invariant s" .
  then have u: "unat (active s) = length (filter handling (workers s))"
    by (simp add: invariant_def unat_active)
  have 1: "step s (Inc w) = Some s1 \<longrightarrow>
            (\<exists>t. workers s ! w = WInc t \<and> workers s1 ! w = WHandle t) \<and>
            unat (active s1) = unat (active s) + 1"
  proof
    assume st: "step s (Inc w) = Some s1"
    from invariant_step [OF i st] have u1: "unat (active s1) = length (filter handling (workers s1))"
      by (simp add: invariant_def unat_active)
    from st show "(\<exists>t. workers s ! w = WInc t \<and> workers s1 ! w = WHandle t) \<and>
            unat (active s1) = unat (active s) + 1"
    proof (cases rule: step_cases)
      case (inc v t)
      with count_update [of w "workers s" handling "WHandle t"] u u1 show ?thesis
        by simp
    qed simp_all
  qed
  have 2: "step s (Dec w) = Some s2 \<longrightarrow>
            (workers s ! w = WDec \<or> workers s ! w = WSendChains []) \<and>
            workers s2 ! w = WRecv \<and> active s2 = active s + 0xFFFFFFFF \<and>
            unat (active s2) + 1 = unat (active s)"
  proof
    assume st: "step s (Dec w) = Some s2"
    from invariant_step [OF i st] have u2: "unat (active s2) = length (filter handling (workers s2))"
      by (simp add: invariant_def unat_active)
    from st show "(workers s ! w = WDec \<or> workers s ! w = WSendChains []) \<and>
            workers s2 ! w = WRecv \<and> active s2 = active s + 0xFFFFFFFF \<and>
            unat (active s2) + 1 = unat (active s)"
    proof (cases rule: step_cases)
      case (dec v)
      with count_update [of w "workers s" handling WRecv] u u2 show ?thesis
        by (auto simp: atomic_AddUint32_def)
    qed simp_all
  qed
  have 3: "step s a = Some s' \<and> active s' \<noteq> active s \<longrightarrow>
            (\<exists>v. a = Inc v \<or> a = Dec v)"
  proof
    assume "step s a = Some s' \<and> active s' \<noteq> active s"
    then have st: "step s a = Some s'" and ne: "active s' \<noteq> active s" by simp_all
    from st ne show "\<exists>v. a = Inc v \<or> a = Dec v"
      by (cases rule: step_cases) (simp_all add: counter_load_def counter_store_def)
  qed
  have 4: "list_all (\<lambda>p. \<not> handling p) (workers s) \<longrightarrow> active s = 0"
  proof
    assume "list_all (\<lambda>p. \<not> handling p) (workers s)"
    then have "filter handling (workers s) = []"
      by (simp add: filter_empty_conv list_all_iff)
    with i show "active s = 0" by (simp add: invariant_def active_inv_def)
  qed
  have 5: "WtReturned \<in> set (calls s) \<longrightarrow> active s = 0"
  proof
    assume "WtReturned \<in> set (calls s)"
    with i have "wg_inv s" "wg s = 0" by (simp_all add: invariant_def returned_inv_def)
    then have "list_all (\<lambda>p. p = WExited) (workers s)" by (rule wg_zero_all_exited)
    then have "filter handling (workers s) = []"
      by (auto simp: filter_empty_conv list_all_iff)
    with i show "active s = 0" by (simp add: invariant_def active_inv_def)
  qed
  from u 1 2 3 4 5 show ?thesis by blast
qed

theorem active_counts_handling_workers_witness:
  "run demo_fixer (take 8 demo_route_sched) = Some demo_dec_state \<and>
   active demo_dec_state = 2 \<and>
   length (filter handling (workers demo_dec_state)) = 2 \<and>
   step demo_dec_state (Dec 3) \<noteq> None \<and>
   workers demo_dec_state ! 3 = WDec \<and>
   workers (the (step demo_dec_state (Dec 3))) ! 3 = WRecv \<and>
   active (the (step demo_dec_state (Dec 3))) = 1 \<and>
   active (the (step demo_dec_state (Dec 3))) \<noteq> active demo_dec_state \<and>
   run demo_fixer (take 4 demo_route_sched) = Some demo_inc_state \<and>
   active demo_inc_state = 0 \<and>
   list_all (\<lambda>p. \<not> handling p) (workers demo_inc_state) \<and>
   step demo_inc_state (Inc 3) \<noteq> None \<and>
   workers demo_inc_state ! 3 = WInc demo_task1 \<and>
   workers (the (step demo_inc_state (Inc 3))) ! 3 = WHandle demo_task1 \<and>
   unat (active (the (step demo_inc_state (Inc 3)))) = 1 \<and>
   run demo_fixer shutdown_sched = Some demo_shutdown_state \<and>
   WtReturned \<in> set (calls demo_shutdown_state) \<and>
   active demo_shutdown_state = 0"
proof -
  let ?d = "the (step demo_dec_state (Dec 3))"
  let ?i = "the (step demo_inc_state (Inc 3))"
  have d': "step demo_dec_state (Dec 3) \<noteq> None"
    by (simp add: step_def demo_dec_fields)
  then have d: "step demo_dec_state (Dec 3) = Some ?d"
    by simp
  have i': "step demo_inc_state (Inc 3) \<noteq> None"
    by (simp add: step_def demo_inc_fields)
  then have i: "step demo_inc_state (Inc 3) = Some ?i"
    by simp
  note D = active_counts_handling_workers [OF demo_dec_run [unfolded demo_fixer_def],
      of 3 _ ?d "Dec 3" ?d]
  note I = active_counts_handling_workers [OF demo_inc_run [unfolded demo_fixer_def],
      of 3 ?i]
  note S = active_counts_handling_workers [OF demo_shutdown_run [unfolded demo_fixer_def]]
  have n: "list_all (\<lambda>p. \<not> handling p) (workers demo_inc_state)"
    using I by (simp add: demo_inc_fields list_all_iff filter_empty_conv)
  have a: "active ?d = 1"
    using D d by (simp add: demo_dec_fields)
  show ?thesis
    using D I S d i d' i' n a demo_dec_run demo_inc_run demo_shutdown_run
    by (simp add: demo_dec_fields demo_inc_fields demo_shutdown_fields del: step_def)
qed

lemma set_counter_workers_trace:
  "(set_counter c v (s\<lparr>workers := ws1\<rparr>))\<lparr>workers := ws, trace := tr\<rparr> =
   (set_counter c v s)\<lparr>workers := ws, trace := tr\<rparr>"
  by (cases c) simp_all

lemma set_counter_workers_same:
  "(set_counter c v s)\<lparr>workers := workers s, trace := tr\<rparr> = (set_counter c v s)\<lparr>trace := tr\<rparr>"
  by (cases c) simp_all

text \<open>
  C7, as the code has it. The six counters are plain \<^verbatim>\<open>uint\<close> fields and an increment
  is a read followed by a write, not an atomic or synchronized update: when the
  increments of two workers interleave one of them is lost. A counter never shows
  more than the number of increments completed; an increment that no other
  increment of the same counter interleaves with adds exactly one.
\<close>

theorem counters_never_overcount:
  assumes "run (NewFixer h) as = Some s"
  shows "unat (get_counter s c) \<le> incs c (trace s) \<and>
         (w < length (workers s) \<and> workers s ! w = WHandle t \<and> crashed s = None \<longrightarrow>
            run s [HandleLoad w c, HandleStore w] =
              Some ((set_counter c (get_counter s c + 1) s)
                      \<lparr>trace := trace s @ [EvIncrement w c]\<rparr>))"
proof -
  from invariant_run [OF assms] have "counter_inv s" by (simp add: invariant_def)
  then have 1: "unat (get_counter s c) \<le> incs c (trace s)"
    by (simp add: counter_inv_def)
  have 2: "w < length (workers s) \<and> workers s ! w = WHandle t \<and> crashed s = None \<longrightarrow>
            run s [HandleLoad w c, HandleStore w] =
              Some ((set_counter c (get_counter s c + 1) s)
                      \<lparr>trace := trace s @ [EvIncrement w c]\<rparr>)"
  proof
    assume a: "w < length (workers s) \<and> workers s ! w = WHandle t \<and> crashed s = None"
    then have "(workers s)[w := WHandle t] = workers s"
      by (simp add: list_update_same_conv [THEN iffD2])
    with a show "run s [HandleLoad w c, HandleStore w] =
              Some ((set_counter c (get_counter s c + 1) s)
                      \<lparr>trace := trace s @ [EvIncrement w c]\<rparr>)"
      by (simp add: step_def counter_load_def counter_store_def set_counter_workers_trace
            set_counter_workers_same)
  qed
  from 1 2 show ?thesis by simp
qed

theorem counters_never_overcount_witness:
  "run demo_fixer demo_lost_sched = Some demo_lost_state \<and>
   unat (get_counter demo_lost_state Fixed) \<le> incs Fixed (trace demo_lost_state) \<and>
   3 < length (workers demo_lost_state) \<and>
   workers demo_lost_state ! 3 = WHandle demo_task1 \<and>
   crashed demo_lost_state = None \<and>
   run demo_lost_state [HandleLoad 3 Skipped, HandleStore 3] =
     Some (demo_lost_state\<lparr>skipped := 1,
             trace := trace demo_lost_state @ [EvIncrement 3 Skipped]\<rparr>)"
proof -
  note L = counters_never_overcount [OF demo_lost_run [unfolded demo_fixer_def]]
  show ?thesis
    using L [of Fixed] L [of Skipped 3 demo_task1] demo_lost_run
    by (simp add: demo_lost_fields(3-) del: run.simps)
qed

text \<open>
  C7, the claim as stated fails: two workers have each completed one increment of
  \<^verbatim>\<open>fixed\<close>, and \<^verbatim>\<open>fixed\<close> is 1.
\<close>

theorem counters_lost_update_counterexample:
  "run demo_fixer demo_lost_sched = Some demo_lost_state \<and>
   incs Fixed (trace demo_lost_state) = 2 \<and>
   fixed demo_lost_state = 1"
  by (simp add: demo_lost_run demo_lost_fields incs_def)

text \<open>
  C8, as the code has it. The reporter prints \<^verbatim>\<open>f.active\<close> and the six counters once for
  each tick it receives from a ticker of period \<^verbatim>\<open>time.Second\<close>, so it never has
  printed more often than the ticker has fired. Nothing stops it: in every
  reachable state, after \<^verbatim>\<open>Wait\<close> too, the ticker runs, its channel is open and the
  reporter waits for the next tick; as long as the process lives the next tick is
  followed by one more printed snapshot of the state as it then is.
\<close>

theorem reporter_never_stops:
  assumes "run (NewFixer h) as = Some s"
  shows "reporter s = RRecv \<and> ticker_running s \<and> ticker_d s = time_Second \<and>
         \<not> tickC_closed s \<and> length (logged s) \<le> ticks s \<and>
         (crashed s = None \<longrightarrow>
            run s [Tick, Report] =
              Some (s\<lparr>tickC_pending := False, ticks := ticks s + 1,
                       logged := logged s @ [snapshot s]\<rparr>))"
proof -
  from invariant_run [OF assms] have r: "reporter_inv s" and l: "log_inv s"
    by (simp_all add: invariant_def)
  from r have 1: "reporter s = RRecv" "ticker_running s" "ticker_d s = time_Second"
    "\<not> tickC_closed s"
    by (simp_all add: reporter_inv_def)
  from l have 2: "length (logged s) \<le> ticks s"
    by (simp add: log_inv_def split: if_splits)
  from 1 have 3: "crashed s = None \<longrightarrow>
            run s [Tick, Report] =
              Some (s\<lparr>tickC_pending := False, ticks := ticks s + 1,
                       logged := logged s @ [snapshot s]\<rparr>)"
    by (simp add: step_def snapshot_def)
  from 1 2 3 show ?thesis by simp
qed

theorem reporter_never_stops_witness:
  "run demo_fixer shutdown_sched = Some demo_shutdown_state \<and>
   reporter demo_shutdown_state = RRecv \<and>
   ticker_running demo_shutdown_state \<and>
   ticker_d demo_shutdown_state = 1000000000 \<and>
   \<not> tickC_closed demo_shutdown_state \<and>
   crashed demo_shutdown_state = None \<and>
   run demo_shutdown_state [Tick, Report] =
     Some (demo_shutdown_state\<lparr>tickC_pending := False, ticks := 1,
             logged := [\<lparr> st_active = 0, st_reconstructed = 0, st_notReconstructed = 0,
                          st_fixed = 0, st_notFixed = 0, st_skipped = 0,
                          st_alreadyDone = 0 \<rparr>]\<rparr>)"
proof -
  have f: "ticks demo_shutdown_state = 0" "logged demo_shutdown_state = []"
    "snapshot demo_shutdown_state =
       \<lparr> st_active = 0, st_reconstructed = 0, st_notReconstructed = 0,
         st_fixed = 0, st_notFixed = 0, st_skipped = 0, st_alreadyDone = 0 \<rparr>"
    unfolding demo_shutdown_state_def demo_fixer_def run_shutdown option.sel
    by (simp_all add: NewFixer_eq snapshot_def)
  show ?thesis
    using reporter_never_stops [OF demo_shutdown_run [unfolded demo_fixer_def]]
      demo_shutdown_run
    by (simp add: demo_shutdown_fields f time_Second_def del: run.simps)
qed

text \<open>
  C8, the claim as stated fails: \<^verbatim>\<open>Wait\<close>, the one way the Fixer has to shut down,
  has returned; the ticker still fires and the reporter still prints and waits for
  more.
\<close>

theorem reporter_runs_after_Wait_counterexample:
  "run demo_fixer shutdown_sched = Some demo_shutdown_state \<and>
   WtReturned \<in> set (calls demo_shutdown_state) \<and>
   run demo_shutdown_state demo_after_sched = Some demo_after_state \<and>
   length (logged demo_after_state) = 1 \<and>
   reporter demo_after_state = RRecv \<and>
   ticker_running demo_after_state \<and>
   \<not> tickC_closed demo_after_state"
proof -
  have "reporter demo_after_state = RRecv" "ticker_running demo_after_state"
    "\<not> tickC_closed demo_after_state"
    unfolding demo_after_state_def demo_shutdown_state_def demo_fixer_def run_shutdown
      option.sel
    by (simp_all add: demo_after_sched_def run_eval)
  then show ?thesis
    by (simp add: demo_shutdown_run demo_after_run demo_shutdown_fields demo_after_fields)
qed

section \<open>The intake channel\<close>

lemma send_completes_by_handoff:
  assumes "step s a = Some s'" "q < length (calls s)" "calls s ! q = QSend t"
    "calls s' ! q \<noteq> QSend t" "toFix_cap s = 0"
  shows "\<exists>w < length (workers s). a = Handoff q w \<and> workers s ! w = WRecv \<and>
           workers s' ! w = WInc t \<and> calls s' ! q = QReturned"
  using assms
proof (cases rule: step_cases)
  case (handoff q' w t')
  with assms(2-4) show ?thesis
    by (cases "q' = q") simp_all
qed (auto simp: counter_load_def counter_store_def nth_append nth_list_update
       split: if_splits)

lemma busy_sched_Suc:
  "busy_sched crt k (Suc m) =
     CallQueueChain crt (DedupedChain []) 0 # Handoff k k # busy_sched crt (Suc k) m"
  by (simp add: busy_sched_def upt_conv_Cons del: upt_Suc)

lemma run_busy:
  assumes "\<not> toFix_closed s" "toFix_buf s = []" "crashed s = None"
    "length (calls s) = k" "length (workers s) = k + m"
    "\<forall>i. k \<le> i \<and> i < k + m \<longrightarrow> workers s ! i = WRecv"
    "\<forall>i < k. workers s ! i \<noteq> WRecv"
  shows "\<exists>s'. run s (busy_sched crt k m) = Some s' \<and> \<not> toFix_closed s' \<and>
           toFix_buf s' = [] \<and> crashed s' = None \<and> length (calls s') = k + m \<and>
           length (workers s') = k + m \<and> (\<forall>i < k + m. workers s' ! i \<noteq> WRecv) \<and>
           length (pools s') = length (pools s) + m"
  using assms
proof (induction m arbitrary: s k)
  case 0
  then show ?case by (simp add: busy_sched_def)
next
  case (Suc m)
  let ?t = "snd (QueueChain_task (pools s) crt (DedupedChain []) 0)"
  let ?u = "s\<lparr>pools := fst (QueueChain_task (pools s) crt (DedupedChain []) 0),
               calls := (calls s @ [QSend ?t])[k := QReturned],
               workers := (workers s)[k := WInc ?t],
               trace := trace s @ [EvDequeue k ?t]\<rparr>"
  have wk: "workers s ! k = WRecv"
    using Suc.prems(6) by simp
  have st: "run s [CallQueueChain crt (DedupedChain []) 0, Handoff k k] = Some ?u"
    using Suc.prems(1-5) wk by (simp add: step_def split_def Let_def nth_append)
  have "\<exists>s'. run ?u (busy_sched crt (Suc k) m) = Some s' \<and> \<not> toFix_closed s' \<and>
           toFix_buf s' = [] \<and> crashed s' = None \<and> length (calls s') = Suc k + m \<and>
           length (workers s') = Suc k + m \<and> (\<forall>i < Suc k + m. workers s' ! i \<noteq> WRecv) \<and>
           length (pools s') = length (pools ?u) + m"
  proof (rule Suc.IH)
    show "\<forall>i. Suc k \<le> i \<and> i < Suc k + m \<longrightarrow> workers ?u ! i = WRecv"
      using Suc.prems(5,6) by (simp add: nth_list_update)
    have kl: "k < length (workers s)" using Suc.prems(5) by simp
    show "\<forall>i < Suc k. workers ?u ! i \<noteq> WRecv"
      using Suc.prems(7) kl by (auto simp: nth_list_update less_Suc_eq)
  qed (use Suc.prems in simp_all)
  then obtain s' where s': "run ?u (busy_sched crt (Suc k) m) = Some s'"
    "\<not> toFix_closed s'" "toFix_buf s' = []" "crashed s' = None"
    "length (calls s') = Suc k + m" "length (workers s') = Suc k + m"
    "\<forall>i < Suc k + m. workers s' ! i \<noteq> WRecv"
    "length (pools s') = length (pools ?u) + m"
    by blast
  have "run s (busy_sched crt k (Suc m)) = Some s'"
    using st s'(1) run_append [of s "[CallQueueChain crt (DedupedChain []) 0, Handoff k k]"
        "busy_sched crt (Suc k) m"]
    by (simp add: busy_sched_Suc del: run.simps)
  with s'(2-) show ?case by (auto simp: QueueChain_task_pools(1))
qed

text \<open>
  C5, as the code has it. The intake channel has capacity 0 and never holds a task:
  a call of \<^verbatim>\<open>QueueChain\<close> at its send cannot put the task into a buffer. The only
  step that takes the call past the send is the one in which a worker waiting at
  line 60 receives the task, and that step is possible as soon as such a worker
  exists, the channel being open.
\<close>

theorem QueueChain_send_needs_receiver:
  assumes "run (NewFixer h) as = Some s" and "q < length (calls s)"
    and "calls s ! q = QSend t"
  shows "toFix_cap s = 0 \<and> toFix_buf s = [] \<and> step s (Enqueue q) = None \<and>
         (step s a = Some s' \<and> calls s' ! q \<noteq> QSend t \<longrightarrow>
            (\<exists>w < length (workers s). a = Handoff q w \<and> workers s ! w = WRecv \<and>
               workers s' ! w = WInc t \<and> calls s' ! q = QReturned)) \<and>
         (w < length (workers s) \<and> workers s ! w = WRecv \<and> \<not> toFix_closed s \<and>
            crashed s = None \<longrightarrow>
            step s (Handoff q w) =
              Some (s\<lparr>calls := (calls s)[q := QReturned],
                       workers := (workers s)[w := WInc t],
                       trace := trace s @ [EvDequeue w t]\<rparr>))"
proof -
  from invariant_run [OF assms(1)] have c: "toFix_cap s = 0" "toFix_buf s = []"
    by (simp_all add: invariant_def chan_inv_def)
  have 1: "step s (Enqueue q) = None"
    using c by (simp add: step_def)
  have 2: "step s a = Some s' \<and> calls s' ! q \<noteq> QSend t \<longrightarrow>
            (\<exists>w < length (workers s). a = Handoff q w \<and> workers s ! w = WRecv \<and>
               workers s' ! w = WInc t \<and> calls s' ! q = QReturned)"
    using send_completes_by_handoff [OF _ assms(2,3) _ c(1)] by blast
  have 3: "w < length (workers s) \<and> workers s ! w = WRecv \<and> \<not> toFix_closed s \<and>
            crashed s = None \<longrightarrow>
            step s (Handoff q w) =
              Some (s\<lparr>calls := (calls s)[q := QReturned],
                       workers := (workers s)[w := WInc t],
                       trace := trace s @ [EvDequeue w t]\<rparr>)"
    using assms(2,3) c by (simp add: step_def)
  from c 1 2 3 show ?thesis by blast
qed

theorem QueueChain_send_needs_receiver_witness:
  "run demo_fixer (take 2 demo_route_sched) \<noteq> None \<and>
   calls (the (run demo_fixer (take 2 demo_route_sched))) ! 1 = QSend demo_task2 \<and>
   toFix_cap (the (run demo_fixer (take 2 demo_route_sched))) = 0 \<and>
   step (the (run demo_fixer (take 2 demo_route_sched))) (Enqueue 1) = None \<and>
   workers (the (run demo_fixer (take 2 demo_route_sched))) ! 4 = WRecv \<and>
   step (the (run demo_fixer (take 2 demo_route_sched))) (Handoff 1 4) \<noteq> None \<and>
   workers (the (step (the (run demo_fixer (take 2 demo_route_sched))) (Handoff 1 4))) ! 4 =
     WInc demo_task2 \<and>
   calls (the (step (the (run demo_fixer (take 2 demo_route_sched))) (Handoff 1 4))) ! 1 =
     QReturned"
proof -
  let ?r = "run demo_fixer (take 2 demo_route_sched)"
  let ?s = "the ?r"
  let ?s' = "the (step ?s (Handoff 1 4))"
  have r': "?r \<noteq> None"
    by (simp add: demo_route_sched_def demo_fixer_def run_eval)
  then have r: "run (NewFixer [[5]]) (take 2 demo_route_sched) = Some ?s"
    by (simp add: demo_fixer_def)
  have f: "length (calls ?s) = 2" "calls ?s ! 1 = QSend demo_task2"
    "length (workers ?s) = 100" "workers ?s ! 4 = WRecv" "\<not> toFix_closed ?s"
    "crashed ?s = None"
    by (simp_all add: demo_route_sched_def demo_fixer_def run_eval demo_task2_def)
  have q: "1 < length (calls ?s)" using f(1) by simp
  note T = QueueChain_send_needs_receiver [OF r q f(2), of "Handoff 1 4" ?s' 4]
  from T f have h: "step ?s (Handoff 1 4) =
      Some (?s\<lparr>calls := (calls ?s)[1 := QReturned], workers := (workers ?s)[4 := WInc demo_task2],
               trace := trace ?s @ [EvDequeue 4 demo_task2]\<rparr>)"
    by simp
  then have h': "step ?s (Handoff 1 4) \<noteq> None"
    "workers ?s' ! 4 = WInc demo_task2" "calls ?s' ! 1 = QReturned"
    using f by simp_all
  from T r' f h' show ?thesis by simp
qed

lemma demo_busy:
  "run demo_fixer demo_busy_sched = Some demo_busy_state"
  "calls demo_busy_state ! 100 = QSend demo_busy_task"
  "length (calls demo_busy_state) = 101"
  "\<not> toFix_closed demo_busy_state"
  "crashed demo_busy_state = None"
  "list_all (\<lambda>p. p \<noteq> WRecv) (workers demo_busy_state)"
proof -
  have "\<exists>s'. run demo_fixer (busy_sched 7 0 100) = Some s' \<and> \<not> toFix_closed s' \<and>
           toFix_buf s' = [] \<and> crashed s' = None \<and> length (calls s') = 0 + 100 \<and>
           length (workers s') = 0 + 100 \<and> (\<forall>i < 0 + 100. workers s' ! i \<noteq> WRecv) \<and>
           length (pools s') = length (pools demo_fixer) + 100"
    by (rule run_busy) (simp_all add: demo_fixer_def NewFixer_eq)
  then obtain u where u: "run demo_fixer (busy_sched 7 0 100) = Some u"
    "\<not> toFix_closed u" "crashed u = None" "length (calls u) = 100"
    "length (workers u) = 100" "\<forall>i < 100. workers u ! i \<noteq> WRecv"
    "length (pools u) = 101"
    by (auto simp: demo_fixer_def NewFixer_eq)
  let ?s = "u\<lparr>pools := fst (QueueChain_task (pools u) 9 (DedupedChain []) 0),
               calls := calls u @ [QSend demo_busy_task]\<rparr>"
  have "snd (QueueChain_task (pools u) 9 (DedupedChain []) 0) = demo_busy_task"
    by (simp add: QueueChain_task_snd u(7) demo_busy_task_def)
  then have "step u (CallQueueChain 9 (DedupedChain []) 0) = Some ?s"
    using u(3) by (simp add: step_def split_def Let_def)
  with u(1) have r: "run demo_fixer demo_busy_sched = Some ?s"
    by (simp add: run_append demo_busy_sched_def)
  then have e: "demo_busy_state = ?s"
    by (simp add: demo_busy_state_def)
  from r show "run demo_fixer demo_busy_sched = Some demo_busy_state"
    by (simp add: e)
  show "calls demo_busy_state ! 100 = QSend demo_busy_task"
    using u(4) by (simp add: e nth_append)
  show "length (calls demo_busy_state) = 101"
    using u(4) by (simp add: e)
  show "\<not> toFix_closed demo_busy_state" "crashed demo_busy_state = None"
    using u(2,3) by (simp_all add: e)
  show "list_all (\<lambda>p. p \<noteq> WRecv) (workers demo_busy_state)"
    using u(5,6) by (simp add: e list_all_length)
qed

text \<open>
  C5, the claim as stated fails: with the channel open and the process alive, the
  call of \<^verbatim>\<open>QueueChain\<close> made when all hundred workers are busy stays at its send;
  no step of the program takes it further.
\<close>

theorem QueueChain_blocks_counterexample:
  "run demo_fixer demo_busy_sched = Some demo_busy_state \<and>
   calls demo_busy_state ! 100 = QSend demo_busy_task \<and>
   \<not> toFix_closed demo_busy_state \<and> crashed demo_busy_state = None \<and>
   list_all (\<lambda>p. p \<noteq> WRecv) (workers demo_busy_state) \<and>
   \<not> (\<exists>a s'. step demo_busy_state a = Some s' \<and> calls s' ! 100 \<noteq> QSend demo_busy_task)"
proof -
  from invariant_run [OF demo_busy(1) [unfolded demo_fixer_def]]
  have cap: "toFix_cap demo_busy_state = 0"
    by (simp add: invariant_def chan_inv_def)
  have "\<not> (\<exists>a s'. step demo_busy_state a = Some s' \<and> calls s' ! 100 \<noteq> QSend demo_busy_task)"
  proof
    assume "\<exists>a s'. step demo_busy_state a = Some s' \<and> calls s' ! 100 \<noteq> QSend demo_busy_task"
    then obtain a s' where a: "step demo_busy_state a = Some s'"
        "calls s' ! 100 \<noteq> QSend demo_busy_task"
      by blast
    have "\<exists>w < length (workers demo_busy_state). a = Handoff 100 w \<and>
           workers demo_busy_state ! w = WRecv \<and>
           workers s' ! w = WInc demo_busy_task \<and> calls s' ! 100 = QReturned"
      using a(1) _ demo_busy(2) a(2)
      by (rule send_completes_by_handoff) (simp_all add: demo_busy(3) cap)
    with demo_busy(6) show False by (auto simp: list_all_length)
  qed
  with demo_busy show ?thesis by simp
qed

section \<open>The options of a task\<close>

text \<open>
  C4. A call \<^verbatim>\<open>QueueChain(cert, d, roots)\<close> made in any reachable state leaves the
  caller at the send of line 48 with a task \<open>t\<close> that holds \<open>cert\<close> and \<open>d\<close> and whose
  options have the roots pool the caller passed, \<^verbatim>\<open>DisableTimeChecks\<close> true and the
  key usages \<^verbatim>\<open>[ExtKeyUsageAny]\<close>. Its intermediates pool is new: its address was not
  in use before the call, it holds the certificates of \<open>d\<close> and no others, each once,
  and, \<open>d\<close> being free of duplicates, holds them in the order of \<open>d\<close>. Every pool that
  existed before, the roots pool among them, is as it was. No task at a send or in
  the hands of a worker has this pool, and in every continuation \<open>bs\<close> the pool
  keeps its content while every later call allocates at an address beyond it.
\<close>

theorem QueueChain_builds_fresh_options:
  assumes "run (NewFixer h) as = Some s"
    and "step s (CallQueueChain crt d roots) = Some s1"
    and "calls s1 ! length (calls s) = QSend t"
  shows "calls s1 = calls s @ [QSend t] \<and> cert t = crt \<and> chain t = d \<and>
         Roots (opts t) = roots \<and> DisableTimeChecks (opts t) \<and>
         KeyUsages (opts t) = [ExtKeyUsageAny] \<and>
         Intermediates (opts t) = length (pools s) \<and>
         length (pools s1) = length (pools s) + 1 \<and>
         set (pools s1 ! Intermediates (opts t)) = set (certs d) \<and>
         distinct (pools s1 ! Intermediates (opts t)) \<and>
         (distinct (certs d) \<longrightarrow> pools s1 ! Intermediates (opts t) = certs d) \<and>
         (a < length (pools s) \<longrightarrow> pools s1 ! a = pools s ! a) \<and>
         (QSend t' \<in> set (calls s) \<longrightarrow> Intermediates (opts t') \<noteq> Intermediates (opts t)) \<and>
         (p \<in> set (workers s) \<and> t'' \<in> set (in_call p) \<longrightarrow>
            Intermediates (opts t'') \<noteq> Intermediates (opts t)) \<and>
         (run s1 bs = Some s2 \<longrightarrow>
            Intermediates (opts t) < length (pools s2) \<and>
            pools s2 ! Intermediates (opts t) = pools s1 ! Intermediates (opts t))"
proof -
  let ?Q = "QueueChain_task (pools s) crt d roots"
  from assms(2) have s1: "s1 = s\<lparr>pools := fst ?Q, calls := calls s @ [QSend (snd ?Q)]\<rparr>"
    by (cases rule: step_cases) simp_all
  with assms(3) have t: "t = snd ?Q" by simp
  from invariant_run [OF assms(1)] have ti: "tasks_inv s"
    by (simp add: invariant_def)
  have i: "Intermediates (opts t) = length (pools s)"
    by (simp add: t QueueChain_task_snd)
  have 1: "calls s1 = calls s @ [QSend t]" "cert t = crt" "chain t = d"
    "Roots (opts t) = roots" "DisableTimeChecks (opts t)"
    "KeyUsages (opts t) = [ExtKeyUsageAny]"
    by (simp_all add: s1 t QueueChain_task_snd)
  have 2: "length (pools s1) = length (pools s) + 1"
    "set (pools s1 ! Intermediates (opts t)) = set (certs d)"
    "distinct (pools s1 ! Intermediates (opts t))"
    "distinct (certs d) \<longrightarrow> pools s1 ! Intermediates (opts t) = certs d"
    "a < length (pools s) \<longrightarrow> pools s1 ! a = pools s ! a"
    by (simp_all add: i s1 QueueChain_task_pools)
  have 3: "QSend t' \<in> set (calls s) \<longrightarrow> Intermediates (opts t') \<noteq> Intermediates (opts t)"
    using ti by (auto simp: tasks_inv_def i)
  have 4: "p \<in> set (workers s) \<and> t'' \<in> set (in_call p) \<longrightarrow>
            Intermediates (opts t'') \<noteq> Intermediates (opts t)"
  proof
    assume "p \<in> set (workers s) \<and> t'' \<in> set (in_call p)"
    with ti have "Intermediates (opts t'') < length (pools s)"
      unfolding tasks_inv_def by blast
    with i show "Intermediates (opts t'') \<noteq> Intermediates (opts t)" by simp
  qed
  have 5: "run s1 bs = Some s2 \<longrightarrow>
            Intermediates (opts t) < length (pools s2) \<and>
            pools s2 ! Intermediates (opts t) = pools s1 ! Intermediates (opts t)"
  proof
    assume "run s1 bs = Some s2"
    from run_pools [OF this] 2(1) i
    show "Intermediates (opts t) < length (pools s2) \<and>
            pools s2 ! Intermediates (opts t) = pools s1 ! Intermediates (opts t)"
      by simp
  qed
  from 1 2 3 4 5 i show ?thesis by blast
qed

theorem QueueChain_builds_fresh_options_witness:
  "run demo_fixer [CallQueueChain 7 (DedupedChain [11, 12]) 0] = Some demo_queued_state \<and>
   step demo_queued_state demo_second_call \<noteq> None \<and>
   calls (the (step demo_queued_state demo_second_call)) = [QSend demo_task1, QSend demo_task2] \<and>
   QSend demo_task1 \<in> set (calls demo_queued_state) \<and>
   Intermediates (opts demo_task1) \<noteq> Intermediates (opts demo_task2) \<and>
   distinct (certs (DedupedChain [13 :: nat])) \<and>
   pools (the (step demo_queued_state demo_second_call)) ! Intermediates (opts demo_task2) = [13] \<and>
   pools (the (step demo_queued_state demo_second_call)) ! 0 = pools demo_queued_state ! 0 \<and>
   Roots (opts demo_task2) = 0 \<and>
   run demo_fixer [CallQueueChain 7 (DedupedChain [11, 12]) 0, Handoff 0 3] =
     Some demo_handed_state \<and>
   step demo_handed_state demo_second_call \<noteq> None \<and>
   WInc demo_task1 \<in> set (workers demo_handed_state) \<and>
   demo_task1 \<in> set (in_call (WInc demo_task1 :: (nat, nat) wpc)) \<and>
   run (the (step demo_handed_state demo_second_call)) demo_later_sched \<noteq> None \<and>
   pools (the (run (the (step demo_handed_state demo_second_call)) demo_later_sched)) ! 2 = [13] \<and>
   length (pools (the (run (the (step demo_handed_state demo_second_call)) demo_later_sched))) = 4"
proof -
  let ?q = "the (step demo_queued_state demo_second_call)"
  let ?h = "the (step demo_handed_state demo_second_call)"
  let ?l = "the (run ?h demo_later_sched)"
  have q': "step demo_queued_state demo_second_call \<noteq> None"
    and h': "step demo_handed_state demo_second_call \<noteq> None"
    by (simp_all add: step_def demo_second_call_def demo_queued_fields demo_handed_fields
          split_def Let_def)
  then have q: "step demo_queued_state (CallQueueChain 8 (DedupedChain [13]) 0) = Some ?q"
    and h: "step demo_handed_state (CallQueueChain 8 (DedupedChain [13]) 0) = Some ?h"
    by (simp_all add: demo_second_call_def)
  have T2: "QueueChain_task [[5], [11, 12]] 8 (DedupedChain [13]) 0 =
      ([[5], [11, 12], [13]], demo_task2)"
    by (simp add: run_eval demo_task2_def)
  have qf: "calls ?q = [QSend demo_task1, QSend demo_task2]"
    using q' by (simp add: q [symmetric] step_def demo_second_call_def demo_queued_fields
        split_def Let_def T2 del: exec.simps) (simp add: demo_queued_fields T2 split_def)
  have hf: "calls ?h = [QReturned, QSend demo_task2]"
    using h' by (simp add: h [symmetric] step_def demo_second_call_def demo_handed_fields
        split_def Let_def T2 del: exec.simps) (simp add: demo_handed_fields T2 split_def)
  have l': "run ?h demo_later_sched \<noteq> None"
    unfolding demo_handed_state_def demo_fixer_def demo_second_call_def demo_later_sched_def
    by (simp add: run_eval)
  then have l: "run ?h demo_later_sched = Some ?l" by simp
  have lf: "length (pools ?l) = 4"
    unfolding demo_handed_state_def demo_fixer_def demo_second_call_def demo_later_sched_def
    by (simp add: run_eval)
  have qc: "calls ?q ! length (calls demo_queued_state) = QSend demo_task2"
    by (simp add: qf demo_queued_fields)
  have hc: "calls ?h ! length (calls demo_handed_state) = QSend demo_task2"
    by (simp add: hf demo_handed_fields)
  have w: "WInc demo_task1 \<in> set (workers demo_handed_state)"
    using nth_mem [of 3 "workers demo_handed_state"] by (simp add: demo_handed_fields)
  note A = QueueChain_builds_fresh_options [OF demo_queued_run [unfolded demo_fixer_def] q qc,
      of 0 demo_task1]
  note B = QueueChain_builds_fresh_options [OF demo_handed_run [unfolded demo_fixer_def] h hc,
      of _ _ "WInc demo_task1" demo_task1 demo_later_sched ?l]
  have i: "Intermediates (opts demo_task2) = 2"
    by (simp add: demo_task2_def)
  show ?thesis
    using A B q' h' l' l lf w demo_queued_run demo_handed_run qf
    by (simp add: demo_queued_fields demo_handed_fields i del: run.simps)
qed

end
